theory Spec2Isabelle
  imports Main "HOL-Library.Sublist"
begin

section \<open>LineLog: the data model\<close>

text \<open>
  The instructions of the program (\<open>enum Op\<close> and the objects \<open>{op, rev, pc, data}\<close> of
  linelog): a tagged variant, so that an unknown \<open>op\<close> is excluded by the type. Revision
  numbers are integers (\<open>lastCheckoutRev\<close> starts at -1), program counters are indices.
\<close>

datatype instr =
    J nat
  | JGE int nat
  | JL int nat
  | LINE int string
  | END

text \<open>One entry of \<open>lines\<close>: \<open>{data, rev, pc, deleted}\<close>.\<close>

record lineinfo =
  data :: string
  lrev :: int
  pc :: nat
  deleted :: bool

text \<open>The attached object of a revision: key/value metadata; \<open>{}\<close> is the empty list.\<close>

type_synonym extra = "(string \<times> string) list"

text \<open>The fields of the class \<open>LineLog\<close>.\<close>

record linelog =
  code :: "instr list"
  tsMap :: "int \<rightharpoonup> int"
  extraMap :: "int \<rightharpoonup> extra"
  maxRev :: int
  lastCheckoutRev :: int
  lines :: "lineinfo list"
  content :: string

text \<open>
  What the code throws: the failed assertions, by their messages, and the \<open>TypeError\<close> of
  JavaScript on reading a property of \<open>undefined\<close> (an index out of range).
\<close>

datatype error =
    IllegalChunk
  | OutOfBoundA2
  | WrongPc
  | UnknownCode
  | CodeDoesNotEndInTime
  | InconsistentOp
  | TypeError

section \<open>The interpreter\<close>

text \<open>
  The loop of \<open>execute\<close>. \<open>patience\<close> is the loop's counter: the loop runs while it is
  positive, each iteration takes one, and leaving the loop at 0 is the failed assertion
  "code does not end in time". \<open>END\<close> sets it to -1 and returns the lines.
\<close>

fun exec_loop ::
  "instr list \<Rightarrow> int \<Rightarrow> int \<Rightarrow> (nat \<Rightarrow> bool) \<Rightarrow> nat \<Rightarrow> nat \<Rightarrow> lineinfo list
    \<Rightarrow> error + lineinfo list" where
  "exec_loop c startRev endRev del 0 p ls = Inl CodeDoesNotEndInTime"
| "exec_loop c startRev endRev del (Suc patience) p ls =
     (if p < length c then
        (case c ! p of
           END \<Rightarrow> Inr (ls @ [\<lparr>data = [], lrev = 0, pc = p, deleted = del p\<rparr>])
         | LINE r d \<Rightarrow>
             exec_loop c startRev endRev del patience (p + 1)
               (ls @ [\<lparr>data = d, lrev = r, pc = p, deleted = del p\<rparr>])
         | J t \<Rightarrow> exec_loop c startRev endRev del patience t ls
         | JGE r t \<Rightarrow>
             exec_loop c startRev endRev del patience (if startRev \<ge> r then t else p + 1) ls
         | JL r t \<Rightarrow>
             exec_loop c startRev endRev del patience (if endRev < r then t else p + 1) ls)
      else Inl TypeError)"

text \<open>\<open>present\<close> is the set of program counters of the snapshot, or absent.\<close>

definition deleted_fn :: "nat set option \<Rightarrow> nat \<Rightarrow> bool" where
  "deleted_fn present = (case present of None \<Rightarrow> (\<lambda>p. False) | Some P \<Rightarrow> (\<lambda>p. p \<notin> P))"

definition execute :: "linelog \<Rightarrow> int \<Rightarrow> int \<Rightarrow> nat set option \<Rightarrow> error + lineinfo list" where
  "execute s startRev endRev present =
     exec_loop (code s) startRev endRev (deleted_fn present) (length (code s) * 2) 0 []"

definition reconstructContent :: "lineinfo list \<Rightarrow> string" where
  "reconstructContent ls = concat (map data ls)"

definition checkOut :: "int \<Rightarrow> int option \<Rightarrow> linelog \<Rightarrow> error + linelog" where
  "checkOut r0 start s =
     (let r = min r0 (maxRev s) in
      if r = lastCheckoutRev s \<and> start = None then Inr s
      else
        let s1 = s\<lparr>lastCheckoutRev := r\<rparr> in
        case execute s1 r r None of
          Inl e \<Rightarrow> Inl e
        | Inr ls \<Rightarrow>
            (case start of
               None \<Rightarrow> Inr (s1\<lparr>lines := ls, content := reconstructContent ls\<rparr>)
             | Some st \<Rightarrow>
                 (case execute s1 st r (Some (pc ` set ls)) of
                    Inl e \<Rightarrow> Inl e
                  | Inr ls' \<Rightarrow> Inr (s1\<lparr>lines := ls', content := reconstructContent ls'\<rparr>))))"

text \<open>The constructor: the fields as initialised, then \<open>checkOut(0)\<close>.\<close>

definition init_fields :: linelog where
  "init_fields = \<lparr>code = [END], tsMap = Map.empty, extraMap = Map.empty, maxRev = 0,
     lastCheckoutRev = -1, lines = [], content = []\<rparr>"

definition new_LineLog :: "error + linelog" where
  "new_LineLog = checkOut 0 None init_fields"

section \<open>The editor\<close>

definition editChunk :: "nat \<Rightarrow> nat \<Rightarrow> int \<Rightarrow> string list \<Rightarrow> linelog \<Rightarrow> error + linelog" where
  "editChunk a1 a2 r newdata s =
     (if \<not> a1 \<le> a2 then Inl IllegalChunk
      else if \<not> a2 \<le> length (lines s) then Inl OutOfBoundA2
      else if \<not> a1 < length (lines s) then Inl TypeError
      else
        let start = length (code s);
            a1Pc = pc (lines s ! a1);
            b2Pc = start + length newdata + 1;
            c1 = (if length newdata > 0
                  then code s @ [JL r b2Pc] @ map (LINE r) newdata else code s)
        in if length newdata > 0 \<and> b2Pc \<noteq> length c1 then Inl WrongPc
        else
          let c2 = (if a1 < a2 then c1 @ [JGE r (pc (lines s ! (a2 - 1)) + 1)] else c1);
              ls1 = (lines s)[a1 := (lines s ! a1)\<lparr>pc := length c2\<rparr>]
          in if \<not> a1Pc < length c2 then Inl TypeError
          else
            let c3 = c2 @ [c2 ! a1Pc];
                c4 = (case c3 ! a1Pc of J t \<Rightarrow> c3 | END \<Rightarrow> c3 | _ \<Rightarrow> c3 @ [J (a1Pc + 1)]);
                c5 = c4[a1Pc := J start];
                newLines = map (\<lambda>(i, d). \<lparr>data = d, lrev = r, pc = start + 1 + i, deleted = False\<rparr>)
                             (enumerate 0 newdata);
                ls2 = take a1 ls1 @ newLines @ drop a2 ls1
            in Inr (s\<lparr>code := c5, lines := ls2,
                      maxRev := (if r > maxRev s then r else maxRev s),
                      lastCheckoutRev := r\<rparr>))"

text \<open>
  \<open>splitLines\<close>: \<open>n\<close> is the distance from \<open>pos\<close> to the next newline (or to the end), so
  that \<open>take (n + 1)\<close> is \<open>s.slice(pos, nextPos + 1)\<close> and \<open>drop (n + 1)\<close> the rest.
\<close>

function splitLines :: "string \<Rightarrow> string list" where
  "splitLines s =
     (if s = [] then []
      else let n = length (takeWhile (\<lambda>ch. ch \<noteq> CHR 0x0A) s)
           in take (n + 1) s # splitLines (drop (n + 1) s))"
  by pat_completeness auto
termination
  by (relation "measure length") auto

declare splitLines.simps [simp del]

text \<open>
  \<open>diffLines\<close> walks the result of \<open>diff_main\<close> of the library diff-match-patch, which is
  not part of this repository: the library's part (\<open>diff_linesToChars_\<close> and \<open>diff_main\<close>)
  is the parameter \<open>dmp\<close>, which gives for two texts the list of \<open>[op, chars]\<close> pairs as
  \<open>(op, chars.length)\<close>, one character standing for one line. The state of the walk is
  \<open>(blocks, a1, a2, b1, b2)\<close>.
\<close>

type_synonym block = "nat \<times> nat \<times> nat \<times> nat"
type_synonym dmp = "string \<Rightarrow> string \<Rightarrow> (int \<times> nat) list"
type_synonym dl_state = "block list \<times> nat \<times> nat \<times> nat \<times> nat"

definition push :: "nat \<Rightarrow> dl_state \<Rightarrow> dl_state" where
  "push len st =
     (case st of (blocks, a1, a2, b1, b2) \<Rightarrow>
        ((if a1 \<noteq> a2 \<or> b1 \<noteq> b2 then blocks @ [(a1, a2, b1, b2)] else blocks),
         a2 + len, a2 + len, b2 + len, b2 + len))"

definition diff_step :: "dl_state \<Rightarrow> int \<times> nat \<Rightarrow> dl_state" where
  "diff_step st x =
     (case x of (opn, len) \<Rightarrow>
        if opn = 0 then push len st
        else case st of (blocks, a1, a2, b1, b2) \<Rightarrow>
          if opn < 0 then (blocks, a1, a2 + len, b1, b2)
          else (blocks, a1, a2, b1, b2 + len))"

definition diffLines :: "dmp \<Rightarrow> string \<Rightarrow> string \<Rightarrow> block list" where
  "diffLines d a b = fst (push 0 (foldl diff_step ([], 0, 0, 0, 0) (d a b)))"

text \<open>The \<open>forEach\<close> over the reversed blocks: each block is one \<open>editChunk\<close>.\<close>

fun editChunks :: "block list \<Rightarrow> int \<Rightarrow> string list \<Rightarrow> linelog \<Rightarrow> error + linelog" where
  "editChunks [] r lns s = Inr s"
| "editChunks ((a1, a2, b1, b2) # bs) r lns s =
     (case editChunk a1 a2 r (take (b2 - b1) (drop b1 lns)) s of
        Inl e \<Rightarrow> Inl e
      | Inr s' \<Rightarrow> editChunks bs r lns s')"

text \<open>
  \<open>recordText(text, timestamp, extra)\<close>. \<open>now\<close> is the value of \<open>Date.now()\<close>;
  \<open>timestamp || Date.now()\<close> takes it when the timestamp is absent or 0. The result is the
  returned revision and the state.
\<close>

definition trivial_cond :: "block list \<Rightarrow> linelog \<Rightarrow> error + bool" where
  "trivial_cond blks s =
     (case blks of
        [(a1, a2, b1, b2)] \<Rightarrow>
          if int a2 - int a1 = 1 \<and> int b2 - int b1 = 1 then
            (if a1 < length (lines s) then
               Inr (lrev (lines s ! a1) = maxRev s \<and>
                    length (filter (\<lambda>l. lrev l = maxRev s) (lines s)) = 1)
             else Inl TypeError)
          else Inr False
      | _ \<Rightarrow> Inr False)"

definition recordText ::
  "dmp \<Rightarrow> string \<Rightarrow> int option \<Rightarrow> extra option \<Rightarrow> int \<Rightarrow> linelog \<Rightarrow> error + (int \<times> linelog)" where
  "recordText d text timestamp ext now s =
     (let a = content s; b = text in
      if a = b then Inr (maxRev s, s)
      else
        let lns = splitLines b in
        case checkOut (maxRev s) None s of
          Inl e \<Rightarrow> Inl e
        | Inr s1 \<Rightarrow>
            let blks = diffLines d a b;
                ts = (case timestamp of None \<Rightarrow> now | Some t \<Rightarrow> if t = 0 then now else t)
            in (case trivial_cond blks s1 of
                 Inl e \<Rightarrow> Inl e
               | Inr True \<Rightarrow>
                   (let r = maxRev s1;
                        a1 = fst (hd blks);
                        b1 = fst (snd (snd (hd blks)));
                        s2 = s1\<lparr>tsMap := (tsMap s1)(r \<mapsto> ts)\<rparr>;
                        p = pc (lines s2 ! a1)
                    in if \<not> p < length (code s2) then Inl TypeError
                       else case code s2 ! p of
                         LINE lr ld \<Rightarrow>
                           if \<not> b1 < length lns then Inl TypeError
                           else
                             let newLine = lns ! b1 in
                             Inr (r, s2\<lparr>code := (code s2)[p := LINE lr newLine],
                                        lines := (lines s2)[a1 := (lines s2 ! a1)\<lparr>data := newLine\<rparr>],
                                        content := b\<rparr>)
                       | _ \<Rightarrow> Inl InconsistentOp)
               | Inr False \<Rightarrow>
                   (let r = maxRev s1 + 1;
                        s2 = s1\<lparr>tsMap := (tsMap s1)(r \<mapsto> ts)\<rparr>;
                        s3 = (case ext of None \<Rightarrow> s2
                              | Some e \<Rightarrow> s2\<lparr>extraMap := (extraMap s2)(r \<mapsto> e)\<rparr>)
                    in case editChunks (rev blks) r lns s3 of
                         Inl e \<Rightarrow> Inl e
                       | Inr s4 \<Rightarrow> Inr (r, s4\<lparr>content := b\<rparr>))))"

section \<open>Annotations\<close>

text \<open>
  \<open>getLineTimestamp\<close> returns \<open>tsMap[rev]\<close>, which is \<open>undefined\<close> (here \<open>None\<close>) for a
  revision without an entry. The comparison is the source's, on integers:
  \<open>i >= lines.length - 1\<close>.
\<close>

definition getLineTimestamp :: "nat \<Rightarrow> linelog \<Rightarrow> int option" where
  "getLineTimestamp i s =
     (if int i \<ge> int (length (lines s)) - 1 then Some 0
      else tsMap s (lrev (lines s ! i)))"

definition getLineExtra :: "nat \<Rightarrow> linelog \<Rightarrow> extra" where
  "getLineExtra i s =
     (if int i \<ge> int (length (lines s)) - 1 then []
      else (case extraMap s (lrev (lines s ! i)) of None \<Rightarrow> [] | Some e \<Rightarrow> e))"

section \<open>The serializer\<close>

text \<open>
  \<open>export\<close> writes \<open>{code, tsMap, extraMap}\<close> as gzip-compressed JSON and \<open>import\<close> reads
  it back with \<open>JSON.parse(gunzipSync(buf))\<close>: the platform's functions, which return the
  object that was written. The payload is that object; \<open>tsMap\<close> and \<open>extraMap\<close> may be
  missing from a buffer (\<open>tsMap || {}\<close>).
\<close>

record payload =
  p_code :: "instr list"
  p_tsMap :: "(int \<rightharpoonup> int) option"
  p_extraMap :: "(int \<rightharpoonup> extra) option"

definition export :: "linelog \<Rightarrow> payload" where
  "export s = \<lparr>p_code = code s, p_tsMap = Some (tsMap s), p_extraMap = Some (extraMap s)\<rparr>"

definition jump_rev :: "instr \<Rightarrow> int" where
  "jump_rev i = (case i of JGE r t \<Rightarrow> r | JL r t \<Rightarrow> r | _ \<Rightarrow> 0)"

definition import_maxRev :: "instr list \<Rightarrow> int" where
  "import_maxRev c = foldl max 0 (map jump_rev c)"

definition import :: "payload \<Rightarrow> linelog \<Rightarrow> error + linelog" where
  "import buf s =
     (let s1 = s\<lparr>code := p_code buf,
                  tsMap := (case p_tsMap buf of None \<Rightarrow> Map.empty | Some m \<Rightarrow> m),
                  extraMap := (case p_extraMap buf of None \<Rightarrow> Map.empty | Some m \<Rightarrow> m)\<rparr>;
          s2 = s1\<lparr>maxRev := import_maxRev (code s1)\<rparr>
      in checkOut (maxRev s2) None s2)"

section \<open>Sequences of operations and concrete states\<close>

text \<open>The public operations that change a LineLog, as values, and their effect in order.\<close>

datatype op = RecordText string "int option" "extra option" int | CheckOut int "int option"

fun apply_op :: "dmp \<Rightarrow> op \<Rightarrow> linelog \<Rightarrow> error + linelog" where
  "apply_op d (RecordText text ts ex now) s = map_sum id snd (recordText d text ts ex now s)"
| "apply_op d (CheckOut r st) s = checkOut r st s"

fun apply_ops :: "dmp \<Rightarrow> op list \<Rightarrow> linelog \<Rightarrow> error + linelog" where
  "apply_ops d [] s = Inr s"
| "apply_ops d (x # xs) s =
     (case apply_op d x s of Inl e \<Rightarrow> Inl e | Inr s' \<Rightarrow> apply_ops d xs s')"

text \<open>The fields that do not hold a dictionary, for evaluation.\<close>

definition view :: "linelog \<Rightarrow> instr list \<times> int \<times> int \<times> lineinfo list \<times> string" where
  "view s = (code s, maxRev s, lastCheckoutRev s, lines s, content s)"

text \<open>The LineLog the constructor returns (\<open>new_LineLog_fresh\<close> below).\<close>

definition fresh :: linelog where
  "fresh = \<lparr>code = [END], tsMap = Map.empty, extraMap = Map.empty, maxRev = 0,
     lastCheckoutRev = 0,
     lines = [\<lparr>data = [], lrev = 0, pc = 0, deleted = False\<rparr>], content = []\<rparr>"

text \<open>
  A line diff to run the code on concrete texts: the common prefix and the common suffix
  of the two line sequences are equal runs, what is left of the first text is deleted and
  what is left of the second is inserted. Where one of the two remainders is empty, or both
  are a single line, diff-match-patch returns this very script.
\<close>

definition common_prefix :: "'a list \<Rightarrow> 'a list \<Rightarrow> nat" where
  "common_prefix xs ys = length (takeWhile (\<lambda>(x, y). x = y) (zip xs ys))"

definition simple_dmp :: dmp where
  "simple_dmp a b =
     (let la = splitLines a; lb = splitLines b;
          p = common_prefix la lb;
          la' = drop p la; lb' = drop p lb;
          q = common_prefix (rev la') (rev lb');
          dl = length la' - q; il = length lb' - q
      in (if p > 0 then [(0, p)] else []) @ (if dl > 0 then [(-1, dl)] else [])
         @ (if il > 0 then [(1, il)] else []) @ (if q > 0 then [(0, q)] else []))"

text \<open>The LineLog after \<open>recordText("a\n", 42, {author: "A"})\<close> on a new one.\<close>

definition s_one :: linelog where
  "s_one = \<lparr>code = [J 1, JL 1 3, LINE 1 ''a\<newline>'', END], tsMap = [1 \<mapsto> 42],
     extraMap = [1 \<mapsto> [(''author'', ''A'')]], maxRev = 1, lastCheckoutRev = 1,
     lines = [\<lparr>data = ''a\<newline>'', lrev = 1, pc = 2, deleted = False\<rparr>,
              \<lparr>data = [], lrev = 0, pc = 3, deleted = False\<rparr>],
     content = ''a\<newline>''\<rparr>"

section \<open>The meaning of a program\<close>

text \<open>
  The entry of \<open>lines\<close> that \<open>execute\<close> pushes at program counter \<open>p\<close>: the data and
  revision of a \<open>LINE\<close>, the empty sentinel at \<open>END\<close>.
\<close>

definition line_at :: "instr list \<Rightarrow> (nat \<Rightarrow> bool) \<Rightarrow> nat \<Rightarrow> lineinfo" where
  "line_at c del p =
     (case c ! p of
        LINE r d \<Rightarrow> \<lparr>data = d, lrev = r, pc = p, deleted = del p\<rparr>
      | _ \<Rightarrow> \<lparr>data = [], lrev = 0, pc = p, deleted = del p\<rparr>)"

text \<open>
  The interpreter as a relation: \<open>runs c sr er p ps\<close> says that the program \<open>c\<close>, started
  at \<open>p\<close> with the revisions \<open>sr\<close> (the test of \<open>JGE\<close>) and \<open>er\<close> (the test of \<open>JL\<close>),
  reaches \<open>END\<close>, and that \<open>ps\<close> are the program counters of the lines it emits, the
  one of \<open>END\<close> last. One rule for each branch of the loop of \<open>execute\<close>.
\<close>

inductive runs :: "instr list \<Rightarrow> int \<Rightarrow> int \<Rightarrow> nat \<Rightarrow> nat list \<Rightarrow> bool"
  for c :: "instr list" and sr :: int and er :: int where
  stop: "p < length c \<Longrightarrow> c ! p = END \<Longrightarrow> runs c sr er p [p]"
| line: "p < length c \<Longrightarrow> c ! p = LINE r d \<Longrightarrow> runs c sr er (p + 1) ps \<Longrightarrow> runs c sr er p (p # ps)"
| jump: "p < length c \<Longrightarrow> c ! p = J t \<Longrightarrow> runs c sr er t ps \<Longrightarrow> runs c sr er p ps"
| jge_taken: "p < length c \<Longrightarrow> c ! p = JGE r t \<Longrightarrow> r \<le> sr \<Longrightarrow> runs c sr er t ps \<Longrightarrow> runs c sr er p ps"
| jge_skip: "p < length c \<Longrightarrow> c ! p = JGE r t \<Longrightarrow> \<not> r \<le> sr \<Longrightarrow> runs c sr er (p + 1) ps \<Longrightarrow> runs c sr er p ps"
| jl_taken: "p < length c \<Longrightarrow> c ! p = JL r t \<Longrightarrow> er < r \<Longrightarrow> runs c sr er t ps \<Longrightarrow> runs c sr er p ps"
| jl_skip: "p < length c \<Longrightarrow> c ! p = JL r t \<Longrightarrow> \<not> er < r \<Longrightarrow> runs c sr er (p + 1) ps \<Longrightarrow> runs c sr er p ps"

text \<open>
  The control flow is acyclic when a rank decreases along every edge: \<open>succs c p\<close> are
  the program counters that can follow \<open>p\<close>, and \<open>wf_code c rk\<close> says that they are in the
  program and of smaller rank. The rank is below the length of the program, which is why
  the budget of the loop is never used up. \<open>emits\<close> holds of the instructions that push a
  line.
\<close>

definition succs :: "instr list \<Rightarrow> nat \<Rightarrow> nat set" where
  "succs c p =
     (case c ! p of J t \<Rightarrow> {t} | JGE r t \<Rightarrow> {t, p + 1} | JL r t \<Rightarrow> {t, p + 1}
      | LINE r d \<Rightarrow> {p + 1} | END \<Rightarrow> {})"

definition wf_code :: "instr list \<Rightarrow> (nat \<Rightarrow> nat) \<Rightarrow> bool" where
  "wf_code c rk = (\<forall>p < length c. rk p < length c \<and> (\<forall>q \<in> succs c p. q < length c \<and> rk q < rk p))"

definition emits :: "instr list \<Rightarrow> nat \<Rightarrow> bool" where
  "emits c p = (case c ! p of LINE r d \<Rightarrow> True | END \<Rightarrow> True | _ \<Rightarrow> False)"

text \<open>
  The lines of a snapshot from the program counters of its run, and the property that
  makes a range view work: the run of the snapshot of \<open>er\<close> is a subsequence of the run
  from \<open>sr\<close> to \<open>er\<close>.
\<close>

definition lines_of :: "instr list \<Rightarrow> nat list \<Rightarrow> lineinfo list" where
  "lines_of c ps = map (line_at c (\<lambda>p. False)) ps"

definition union_ok :: "instr list \<Rightarrow> bool" where
  "union_ok c = (\<forall>sr er ps qs. sr \<le> er \<longrightarrow> runs c er er 0 ps \<longrightarrow> runs c sr er 0 qs \<longrightarrow> subseq ps qs)"

text \<open>
  Two pairs of revisions decide every jump of the program the same way; and a bound on
  the revisions of the jumps.
\<close>

definition same_tests :: "instr list \<Rightarrow> int \<Rightarrow> int \<Rightarrow> int \<Rightarrow> int \<Rightarrow> bool" where
  "same_tests c sr er sr' er' =
     (\<forall>i \<in> set c. case i of JGE r t \<Rightarrow> (r \<le> sr) = (r \<le> sr') | JL r t \<Rightarrow> (er < r) = (er' < r)
                      | _ \<Rightarrow> True)"

definition jumps_le :: "instr list \<Rightarrow> int \<Rightarrow> bool" where
  "jumps_le c m = (\<forall>i \<in> set c. jump_rev i \<le> m)"

section \<open>The program after one editChunk\<close>

text \<open>
  \<open>editChunk\<close> appends to the program \<open>c\<close> a chunk: a \<open>JL\<close> and the new \<open>LINE\<close>s when
  there are new lines (\<open>nd\<close>), a \<open>JGE\<close> to the instruction \<open>t\<close> after the last deleted
  line when lines are deleted (\<open>g = Some t\<close>), a copy of the instruction at \<open>a\<close>, and a
  jump back to \<open>a + 1\<close> when that instruction is a \<open>LINE\<close>; the instruction at \<open>a\<close> becomes
  a jump to the chunk. \<open>edit_code\<close> is that program, \<open>new_pcs\<close> are the program counters of the
  new lines, \<open>tail_pc\<close> that of the copy.
\<close>

definition b2_pc :: "instr list \<Rightarrow> string list \<Rightarrow> nat" where
  "b2_pc c nd = length c + (if nd = [] then 0 else length nd + 1)"

definition tail_pc :: "instr list \<Rightarrow> string list \<Rightarrow> nat option \<Rightarrow> nat" where
  "tail_pc c nd g = b2_pc c nd + (case g of None \<Rightarrow> 0 | Some t \<Rightarrow> 1)"

definition new_pcs :: "instr list \<Rightarrow> string list \<Rightarrow> nat list" where
  "new_pcs c nd = map (\<lambda>i. length c + 1 + i) [0..<length nd]"

definition edit_code :: "instr list \<Rightarrow> nat \<Rightarrow> int \<Rightarrow> string list \<Rightarrow> nat option \<Rightarrow> instr list" where
  "edit_code c a r nd g =
     c[a := J (length c)]
     @ (if nd = [] then [] else JL r (length c + length nd + 1) # map (LINE r) nd)
     @ (case g of None \<Rightarrow> [] | Some t \<Rightarrow> [JGE r t])
     @ [c ! a]
     @ (case c ! a of LINE lr ld \<Rightarrow> [J (a + 1)] | _ \<Rightarrow> [])"

text \<open>
  The run of the edited program from the run of the old one: where the old run emitted
  the line at \<open>a\<close>, the new one emits what the chunk does. \<open>T\<close> is the run from the
  target of the \<open>JGE\<close>, \<open>rest\<close> the old run after \<open>a\<close>.
\<close>

primrec splice_at :: "nat \<Rightarrow> (nat list \<Rightarrow> nat list) \<Rightarrow> nat list \<Rightarrow> nat list" where
  "splice_at a mid [] = []"
| "splice_at a mid (p # ps) = (if p = a then mid ps else p # splice_at a mid ps)"

definition chunk_out ::
  "instr list \<Rightarrow> int \<Rightarrow> string list \<Rightarrow> nat option \<Rightarrow> int \<Rightarrow> int \<Rightarrow> nat list \<Rightarrow> nat list \<Rightarrow> nat list" where
  "chunk_out c r nd g sr er T rest =
     (if er < r then [] else new_pcs c nd)
     @ (if g \<noteq> None \<and> r \<le> sr then T else tail_pc c nd g # rest)"

text \<open>
  A rank for the edited program: the instructions at or above the rank of \<open>a\<close> are
  lifted over the chunk, whose instructions are ranked in decreasing order of address.
\<close>

definition edit_rank :: "instr list \<Rightarrow> nat \<Rightarrow> nat \<Rightarrow> (nat \<Rightarrow> nat) \<Rightarrow> nat \<Rightarrow> nat" where
  "edit_rank c a n' rk p =
     (if p < length c then (if rk a \<le> rk p then rk p + (n' - length c) else rk p)
      else rk a + (n' - 1 - p))"

text \<open>
  The \<open>lines\<close> that \<open>editChunk\<close> leaves, the program counters they stand for, and the
  target of the \<open>JGE\<close>.
\<close>

definition edit_lines ::
  "lineinfo list \<Rightarrow> nat \<Rightarrow> nat \<Rightarrow> int \<Rightarrow> string list \<Rightarrow> nat \<Rightarrow> nat \<Rightarrow> lineinfo list" where
  "edit_lines ls a1 a2 r nd start tp =
     take a1 ls
     @ map (\<lambda>i. \<lparr>data = nd ! i, lrev = r, pc = start + 1 + i, deleted = False\<rparr>) [0..<length nd]
     @ (if a1 < a2 then drop a2 ls else (ls ! a1)\<lparr>pc := tp\<rparr> # drop (a1 + 1) ls)"

definition edit_pcs :: "instr list \<Rightarrow> nat list \<Rightarrow> nat \<Rightarrow> nat \<Rightarrow> string list \<Rightarrow> nat list" where
  "edit_pcs c ps a1 a2 nd =
     take a1 ps @ new_pcs c nd
     @ (if a1 < a2 then drop a2 ps
        else tail_pc c nd None # drop (a1 + 1) ps)"

definition edit_target :: "nat list \<Rightarrow> nat \<Rightarrow> nat \<Rightarrow> nat option" where
  "edit_target ps a1 a2 = (if a1 < a2 then Some (ps ! (a2 - 1) + 1) else None)"

section \<open>The contract of the line diff\<close>

text \<open>
  What is assumed of \<open>diff_main\<close> of diff-match-patch: its result is an edit script from
  the lines of the first text to the lines of the second. An entry with operation 0 stands
  for as many lines equal on both sides, a negative one for lines of the first text only, a
  positive one for lines of the second text only, and the entries cover both texts.
  \<open>dmp_ok\<close> says so for every pair of texts.
\<close>

fun script_ok :: "(int \<times> nat) list \<Rightarrow> string list \<Rightarrow> string list \<Rightarrow> bool" where
  "script_ok [] la lb = (la = [] \<and> lb = [])"
| "script_ok ((opn, n) # ds) la lb =
     (if opn = 0 then
        n \<le> length la \<and> n \<le> length lb \<and> take n la = take n lb \<and> script_ok ds (drop n la) (drop n lb)
      else if opn < 0 then n \<le> length la \<and> script_ok ds (drop n la) lb
      else n \<le> length lb \<and> script_ok ds la (drop n lb))"

definition dmp_ok :: "dmp \<Rightarrow> bool" where
  "dmp_ok d = (\<forall>a b. script_ok (d a b) (splitLines a) (splitLines b))"

text \<open>
  What \<open>recordText\<close> needs of the blocks, read from the last one, as \<open>editChunks\<close> applies
  them: each block lies below the one after it, is not empty, and the lines between two
  blocks, and before the first, are equal on both sides. \<open>A\<close> and \<open>B\<close> are the line
  numbers up to which the two texts are still to be matched. \<open>dl_inv\<close> is that property
  for the state of the walk of \<open>diffLines\<close>, and \<open>dl_rest\<close> the lines the walk has not
  reached.
\<close>

fun rmatch :: "block list \<Rightarrow> string list \<Rightarrow> string list \<Rightarrow> nat \<Rightarrow> nat \<Rightarrow> bool" where
  "rmatch [] la lb A B = (take A la = take B lb)"
| "rmatch ((a1, a2, b1, b2) # bs) la lb A B =
     (a1 \<le> a2 \<and> a2 \<le> A \<and> b1 \<le> b2 \<and> b2 \<le> B \<and> (a1 < a2 \<or> b1 < b2)
      \<and> drop a2 (take A la) = drop b2 (take B lb) \<and> rmatch bs la lb a1 b1)"

definition dl_inv :: "string list \<Rightarrow> string list \<Rightarrow> dl_state \<Rightarrow> bool" where
  "dl_inv la lb st =
     (case st of (bl, a1, a2, b1, b2) \<Rightarrow>
        a1 \<le> a2 \<and> a2 \<le> length la \<and> b1 \<le> b2 \<and> b2 \<le> length lb \<and> rmatch (rev bl) la lb a1 b1)"

definition dl_rest :: "string list \<Rightarrow> string list \<Rightarrow> dl_state \<Rightarrow> string list \<times> string list" where
  "dl_rest la lb st = (case st of (bl, a1, a2, b1, b2) \<Rightarrow> (drop a2 la, drop b2 lb))"

section \<open>Invariants\<close>

text \<open>
  The data and revision of the line an instruction emits. \<open>lines_le\<close> bounds the
  revisions of the \<open>LINE\<close>s; \<open>keeps c c' r\<close> says that every snapshot of a revision below
  \<open>r\<close> has in \<open>c'\<close> the lines it has in \<open>c\<close>; \<open>snap_ok\<close> that the snapshot of a revision
  holds no line of a later one; and \<open>hist_ok c m h\<close> that the snapshot of each revision up to
  \<open>m\<close> is the text \<open>h\<close> gives for it (the empty text for revision 0), with a text for every
  revision from 1 to \<open>m\<close>.
\<close>

definition line_of :: "instr \<Rightarrow> string \<times> int" where
  "line_of i = (case i of LINE r d \<Rightarrow> (d, r) | _ \<Rightarrow> ([], 0))"

definition lines_le :: "instr list \<Rightarrow> int \<Rightarrow> bool" where
  "lines_le c m = (\<forall>i \<in> set c. snd (line_of i) \<le> m)"

definition keeps :: "instr list \<Rightarrow> instr list \<Rightarrow> int \<Rightarrow> bool" where
  "keeps c c' r =
     (\<forall>k ps. k < r \<longrightarrow> runs c k k 0 ps \<longrightarrow>
        (\<exists>ps'. runs c' k k 0 ps' \<and> map (\<lambda>p. line_of (c' ! p)) ps' = map (\<lambda>p. line_of (c ! p)) ps))"

definition snap_ok :: "instr list \<Rightarrow> bool" where
  "snap_ok c = (\<forall>k ps. 0 \<le> k \<longrightarrow> runs c k k 0 ps \<longrightarrow> (\<forall>p \<in> set ps. snd (line_of (c ! p)) \<le> k))"

definition hist_ok :: "instr list \<Rightarrow> int \<Rightarrow> (int \<rightharpoonup> string) \<Rightarrow> bool" where
  "hist_ok c m h =
     ((\<forall>k ps. 0 \<le> k \<longrightarrow> k \<le> m \<longrightarrow> runs c k k 0 ps \<longrightarrow>
         concat (map (\<lambda>p. fst (line_of (c ! p))) ps) = (case h k of None \<Rightarrow> [] | Some X \<Rightarrow> X))
      \<and> (\<forall>k. 1 \<le> k \<longrightarrow> k \<le> m \<longrightarrow> h k \<noteq> None)
      \<and> (h 0 = None \<or> h 0 = Some []))"

text \<open>
  Inside the loop of \<open>recordText\<close> the lines are the snapshot of the new revision \<open>r\<close> of
  the program built so far, and their data are \<open>dat\<close>: the old text where blocks are still
  to be applied, the new text after them.
\<close>

definition loop_inv :: "int \<Rightarrow> string list \<Rightarrow> linelog \<Rightarrow> bool" where
  "loop_inv r dat s =
     ((\<exists>rk. wf_code (code s) rk) \<and> jumps_le (code s) r \<and> union_ok (code s)
      \<and> (\<exists>ps. runs (code s) r r 0 ps \<and> lines s = lines_of (code s) ps)
      \<and> map data (butlast (lines s)) = dat)"

text \<open>
  Between calls of \<open>recordText\<close>: the program is acyclic, its jumps test revisions up to
  \<open>maxRev\<close>, which is 0 or the revision of one of them, range views contain their snapshot;
  the lines are the snapshot of \<open>maxRev\<close>, which is the revision checked out; and the
  content is the text of these lines. Only the new LineLog has \<open>maxRev = 0\<close>.
\<close>

definition code_ok :: "instr list \<Rightarrow> int \<Rightarrow> bool" where
  "code_ok c m =
     ((\<exists>rk. wf_code c rk) \<and> jumps_le c m \<and> union_ok c \<and> 0 \<le> m
      \<and> (m = 0 \<or> (\<exists>i \<in> set c. jump_rev i = m)))"

definition inv :: "linelog \<Rightarrow> bool" where
  "inv s =
     (code_ok (code s) (maxRev s)
      \<and> (\<exists>ps. runs (code s) (maxRev s) (maxRev s) 0 ps \<and> lines s = lines_of (code s) ps)
      \<and> lastCheckoutRev s = maxRev s
      \<and> map data (butlast (lines s)) = splitLines (content s)
      \<and> (maxRev s = 0 \<longrightarrow> s = fresh))"

text \<open>
  The two kinds of operations, and the LineLog after \<open>recordText("a\n", 42, {author: "A"})\<close>
  and \<open>checkOut(0)\<close>.
\<close>

fun is_record :: "op \<Rightarrow> bool" where
  "is_record (RecordText text ts ex now) = True"
| "is_record (CheckOut r st) = False"

fun is_checkout :: "op \<Rightarrow> bool" where
  "is_checkout (RecordText text ts ex now) = False"
| "is_checkout (CheckOut r st) = True"

definition s_zero :: linelog where
  "s_zero = s_one\<lparr>lastCheckoutRev := 0,
     lines := [\<lparr>data = [], lrev = 0, pc = 3, deleted = False\<rparr>], content := []\<rparr>"

text \<open>
  The texts recorded by a sequence of operations: \<open>record_log\<close> replays it and files each
  text under the revision its \<open>recordText\<close> returned, a later call that returns the same
  revision replacing the text. \<open>hinv\<close> adds to the invariant that the program holds
  these texts. \<open>sentinel_last\<close>: the last entry of \<open>lines\<close> is the one pushed at \<open>END\<close>,
  with no data and revision 0, and every other entry is the line of a \<open>LINE\<close>
  instruction.
\<close>

fun record_log :: "dmp \<Rightarrow> op list \<Rightarrow> linelog \<Rightarrow> (int \<rightharpoonup> string) \<Rightarrow> (int \<rightharpoonup> string)" where
  "record_log d [] s h = h"
| "record_log d (RecordText text ts ex now # xs) s h =
     (case recordText d text ts ex now s of
        Inl e \<Rightarrow> h
      | Inr (r, s') \<Rightarrow> record_log d xs s' (h(r \<mapsto> text)))"
| "record_log d (CheckOut r st # xs) s h =
     (case checkOut r st s of Inl e \<Rightarrow> h | Inr s' \<Rightarrow> record_log d xs s' h)"

definition hinv :: "linelog \<Rightarrow> (int \<rightharpoonup> string) \<Rightarrow> bool" where
  "hinv s h = (inv s \<and> lines_le (code s) (maxRev s) \<and> snap_ok (code s)
     \<and> hist_ok (code s) (maxRev s) h)"

definition sentinel_last :: "linelog \<Rightarrow> bool" where
  "sentinel_last s =
     (lines s \<noteq> [] \<and> data (last (lines s)) = [] \<and> lrev (last (lines s)) = 0
      \<and> pc (last (lines s)) < length (code s) \<and> code s ! pc (last (lines s)) = END
      \<and> (\<forall>l \<in> set (butlast (lines s)). \<exists>r d. code s ! pc l = LINE r d \<and> data l = d \<and> lrev l = r))"

section \<open>Basic facts\<close>

lemma new_LineLog_fresh: "new_LineLog = Inr fresh"
  by (simp add: new_LineLog_def checkOut_def init_fields_def execute_def fresh_def
      deleted_fn_def reconstructContent_def numeral_2_eq_2)

lemma s_one_reached:
  "recordText simple_dmp ''a\<newline>'' (Some 42) (Some [(''author'', ''A'')]) 7 fresh = Inr (1, s_one)"
proof -
  have sl: "splitLines ''a\<newline>'' = [''a\<newline>'']" by code_simp
  have dl: "diffLines simple_dmp [] ''a\<newline>'' = [(0, 0, 0, 1)]" by code_simp
  show ?thesis
    by (simp add: recordText_def fresh_def s_one_def checkOut_def dl sl trivial_cond_def
        editChunk_def Let_def)
qed

lemma checkOut_fields:
  assumes "checkOut r st s = Inr s'"
  shows "code s' = code s" "tsMap s' = tsMap s" "extraMap s' = extraMap s" "maxRev s' = maxRev s"
  using assms
  by (auto simp: checkOut_def Let_def split: if_splits sum.splits option.splits)

lemma recordText_content:
  assumes "recordText d X ts ex now s = Inr (r, s')"
  shows "content s' = X"
  using assms
  by (auto simp: recordText_def Let_def split: if_splits sum.splits bool.splits instr.splits)

section \<open>Runs: range, determinism, termination, and the loop of execute\<close>

lemma runs_in_range: "runs c sr er p ps \<Longrightarrow> p < length c"
  by (induction rule: runs.induct) auto

lemma wf_succ:
  "wf_code c rk \<Longrightarrow> p < length c \<Longrightarrow> q \<in> succs c p \<Longrightarrow> q < length c \<and> rk q < rk p"
  by (simp add: wf_code_def)

lemma succs_simps:
  "c ! p = END \<Longrightarrow> succs c p = {}"
  "c ! p = LINE r d \<Longrightarrow> succs c p = {p + 1}"
  "c ! p = J t \<Longrightarrow> succs c p = {t}"
  "c ! p = JGE r t \<Longrightarrow> succs c p = {t, p + 1}"
  "c ! p = JL r t \<Longrightarrow> succs c p = {t, p + 1}"
  by (simp_all add: succs_def)

lemma runs_det: "runs c sr er p ps \<Longrightarrow> runs c sr er p qs \<Longrightarrow> ps = qs"
proof (induction arbitrary: qs rule: runs.induct)
  case (stop p)
  from stop.prems stop.hyps show ?case by (cases rule: runs.cases) simp_all
next
  case (line p r d ps)
  from line.prems line.hyps obtain qs' where "qs = p # qs'" "runs c sr er (p + 1) qs'"
    by (cases rule: runs.cases) simp_all
  with line.IH show ?case by blast
next
  case (jump p t ps)
  from jump.prems jump.hyps have "runs c sr er t qs"
    by (cases rule: runs.cases) simp_all
  with jump.IH show ?case by blast
next
  case (jge_taken p r t ps)
  from jge_taken.prems jge_taken.hyps have "runs c sr er t qs"
    by (cases rule: runs.cases) simp_all
  with jge_taken.IH show ?case by blast
next
  case (jge_skip p r t ps)
  from jge_skip.prems jge_skip.hyps have "runs c sr er (p + 1) qs"
    by (cases rule: runs.cases) simp_all
  with jge_skip.IH show ?case by blast
next
  case (jl_taken p r t ps)
  from jl_taken.prems jl_taken.hyps have "runs c sr er t qs"
    by (cases rule: runs.cases) simp_all
  with jl_taken.IH show ?case by blast
next
  case (jl_skip p r t ps)
  from jl_skip.prems jl_skip.hyps have "runs c sr er (p + 1) qs"
    by (cases rule: runs.cases) simp_all
  with jl_skip.IH show ?case by blast
qed

lemma runs_nonempty: "runs c sr er p ps \<Longrightarrow> ps \<noteq> []"
  by (induction rule: runs.induct) simp_all

lemma runs_emits: "runs c sr er p ps \<Longrightarrow> q \<in> set ps \<Longrightarrow> q < length c \<and> emits c q"
  by (induction rule: runs.induct) (auto simp: emits_def)

lemma runs_last_end: "runs c sr er p ps \<Longrightarrow> c ! last ps = END"
  by (induction rule: runs.induct) (simp_all add: runs_nonempty)

lemma runs_butlast_line: "runs c sr er p ps \<Longrightarrow> q \<in> set (butlast ps) \<Longrightarrow> \<exists>r d. c ! q = LINE r d"
  by (induction rule: runs.induct) (auto simp: runs_nonempty)

lemma runs_rank:
  "runs c sr er p ps \<Longrightarrow> wf_code c rk \<Longrightarrow> q \<in> set ps \<Longrightarrow> rk q \<le> rk p"
proof (induction rule: runs.induct)
  case (stop p) then show ?case by simp
next
  case (line p r d ps)
  have "rk (p + 1) < rk p" using wf_succ [OF line.prems(1) line.hyps(1)] line.hyps(2)
    by (simp add: succs_simps)
  moreover have "q = p \<or> rk q \<le> rk (p + 1)" using line.IH line.prems by auto
  ultimately show ?case by auto
next
  case (jump p t ps)
  have "rk t < rk p" using wf_succ [OF jump.prems(1) jump.hyps(1)] jump.hyps(2)
    by (simp add: succs_simps)
  moreover have "rk q \<le> rk t" using jump.IH jump.prems by auto
  ultimately show ?case by auto
next
  case (jge_taken p r t ps)
  have "rk t < rk p" using wf_succ [OF jge_taken.prems(1) jge_taken.hyps(1)] jge_taken.hyps(2)
    by (simp add: succs_simps)
  moreover have "rk q \<le> rk t" using jge_taken.IH jge_taken.prems by auto
  ultimately show ?case by auto
next
  case (jge_skip p r t ps)
  have "rk (p + 1) < rk p" using wf_succ [OF jge_skip.prems(1) jge_skip.hyps(1)] jge_skip.hyps(2)
    by (simp add: succs_simps)
  moreover have "rk q \<le> rk (p + 1)" using jge_skip.IH jge_skip.prems by auto
  ultimately show ?case by auto
next
  case (jl_taken p r t ps)
  have "rk t < rk p" using wf_succ [OF jl_taken.prems(1) jl_taken.hyps(1)] jl_taken.hyps(2)
    by (simp add: succs_simps)
  moreover have "rk q \<le> rk t" using jl_taken.IH jl_taken.prems by auto
  ultimately show ?case by auto
next
  case (jl_skip p r t ps)
  have "rk (p + 1) < rk p" using wf_succ [OF jl_skip.prems(1) jl_skip.hyps(1)] jl_skip.hyps(2)
    by (simp add: succs_simps)
  moreover have "rk q \<le> rk (p + 1)" using jl_skip.IH jl_skip.prems by auto
  ultimately show ?case by auto
qed

lemma runs_line_tail_rank:
  assumes "runs c sr er (p + 1) ps" "wf_code c rk" "p < length c" "c ! p = LINE r d" "q \<in> set ps"
  shows "rk q < rk p"
proof -
  have "rk (p + 1) < rk p" using wf_succ [OF assms(2,3)] assms(4) by (simp add: succs_simps)
  moreover have "rk q \<le> rk (p + 1)" using runs_rank [OF assms(1,2,5)] .
  ultimately show ?thesis by simp
qed

lemma runs_distinct: "runs c sr er p ps \<Longrightarrow> wf_code c rk \<Longrightarrow> distinct ps"
proof (induction rule: runs.induct)
  case (line p r d ps)
  have "p \<notin> set ps"
    using runs_line_tail_rank [OF line.hyps(3) line.prems line.hyps(1,2)] by fastforce
  with line show ?case by simp
qed simp_all

lemma runs_total:
  "wf_code c rk \<Longrightarrow> p < length c \<Longrightarrow> \<exists>ps. runs c sr er p ps"
proof (induction "rk p" arbitrary: p rule: less_induct)
  case less
  have sub: "\<And>q. q \<in> succs c p \<Longrightarrow> \<exists>ps. runs c sr er q ps"
    using less.hyps less.prems wf_succ [OF less.prems] by blast
  show ?case
  proof (cases "c ! p")
    case (J t)
    with sub [of t] obtain ps where "runs c sr er t ps" by (auto simp: succs_simps)
    with J less.prems show ?thesis by (blast intro: runs.jump)
  next
    case (JGE r t)
    from sub [of t] sub [of "p + 1"] JGE obtain ps1 ps2
      where "runs c sr er t ps1" "runs c sr er (p + 1) ps2" by (auto simp: succs_simps)
    with JGE less.prems show ?thesis
      by (cases "r \<le> sr") (blast intro: runs.jge_taken runs.jge_skip)+
  next
    case (JL r t)
    from sub [of t] sub [of "p + 1"] JL obtain ps1 ps2
      where "runs c sr er t ps1" "runs c sr er (p + 1) ps2" by (auto simp: succs_simps)
    with JL less.prems show ?thesis
      by (cases "er < r") (blast intro: runs.jl_taken runs.jl_skip)+
  next
    case (LINE r d)
    with sub [of "p + 1"] obtain ps where "runs c sr er (p + 1) ps" by (auto simp: succs_simps)
    with LINE less.prems show ?thesis by (blast intro: runs.line)
  next
    case END
    with less.prems show ?thesis by (blast intro: runs.stop)
  qed
qed

lemma exec_loop_runs:
  "runs c sr er p ps \<Longrightarrow> wf_code c rk \<Longrightarrow> rk p < n \<Longrightarrow>
   exec_loop c sr er del n p acc = Inr (acc @ map (line_at c del) ps)"
proof (induction arbitrary: n acc rule: runs.induct)
  case (stop p)
  then obtain m where "n = Suc m" by (cases n) auto
  with stop show ?case by (simp add: line_at_def)
next
  case (line p r d ps)
  then obtain m where n: "n = Suc m" by (cases n) auto
  have "rk (p + 1) < rk p" using wf_succ [OF line.prems(1) line.hyps(1)] line.hyps(2)
    by (simp add: succs_simps)
  with line.prems n have "rk (p + 1) < m" by simp
  from line.IH [OF line.prems(1) this] line.hyps n show ?case by (simp add: line_at_def)
next
  case (jump p t ps)
  then obtain m where n: "n = Suc m" by (cases n) auto
  have "rk t < rk p" using wf_succ [OF jump.prems(1) jump.hyps(1)] jump.hyps(2)
    by (simp add: succs_simps)
  with jump.prems n have "rk t < m" by simp
  from jump.IH [OF jump.prems(1) this] jump.hyps n show ?case by simp
next
  case (jge_taken p r t ps)
  then obtain m where n: "n = Suc m" by (cases n) auto
  have "rk t < rk p" using wf_succ [OF jge_taken.prems(1) jge_taken.hyps(1)] jge_taken.hyps(2)
    by (simp add: succs_simps)
  with jge_taken.prems n have "rk t < m" by simp
  from jge_taken.IH [OF jge_taken.prems(1) this] jge_taken.hyps n show ?case by simp
next
  case (jge_skip p r t ps)
  then obtain m where n: "n = Suc m" by (cases n) auto
  have "rk (p + 1) < rk p" using wf_succ [OF jge_skip.prems(1) jge_skip.hyps(1)] jge_skip.hyps(2)
    by (simp add: succs_simps)
  with jge_skip.prems n have "rk (p + 1) < m" by simp
  from jge_skip.IH [OF jge_skip.prems(1) this] jge_skip.hyps n show ?case by simp
next
  case (jl_taken p r t ps)
  then obtain m where n: "n = Suc m" by (cases n) auto
  have "rk t < rk p" using wf_succ [OF jl_taken.prems(1) jl_taken.hyps(1)] jl_taken.hyps(2)
    by (simp add: succs_simps)
  with jl_taken.prems n have "rk t < m" by simp
  from jl_taken.IH [OF jl_taken.prems(1) this] jl_taken.hyps n show ?case by simp
next
  case (jl_skip p r t ps)
  then obtain m where n: "n = Suc m" by (cases n) auto
  have "rk (p + 1) < rk p" using wf_succ [OF jl_skip.prems(1) jl_skip.hyps(1)] jl_skip.hyps(2)
    by (simp add: succs_simps)
  with jl_skip.prems n have "rk (p + 1) < m" by simp
  from jl_skip.IH [OF jl_skip.prems(1) this] jl_skip.hyps n show ?case by simp
qed

lemma execute_runs:
  assumes "runs (code s) sr er 0 ps" "wf_code (code s) rk"
  shows "execute s sr er present = Inr (map (line_at (code s) (deleted_fn present)) ps)"
proof -
  have "0 < length (code s)" using runs_in_range [OF assms(1)] .
  then have "rk 0 < length (code s) * 2" using assms(2) by (auto simp: wf_code_def)
  from exec_loop_runs [OF assms this] show ?thesis by (simp add: execute_def)
qed

lemma runs_suffix: "runs c sr er p (xs @ q # ys) \<Longrightarrow> runs c sr er q (q # ys)"
proof (induction p "xs @ q # ys" arbitrary: xs rule: runs.induct)
  case (stop p)
  then show ?case by (cases xs) (auto intro: runs.stop)
next
  case (line p r d ps)
  show ?case
  proof (cases xs)
    case Nil
    with line.hyps show ?thesis by (auto intro: runs.line)
  next
    case (Cons x xs')
    with line.hyps show ?thesis by auto
  qed
qed auto

lemma runs_after_line:
  assumes "runs c sr er q (q # ys)" "c ! q = LINE r d"
  shows "runs c sr er (q + 1) ys"
  using assms by (cases rule: runs.cases) simp_all

lemma runs_visit_self:
  assumes "runs c sr er p ps" "emits c p"
  shows "\<exists>ys. ps = p # ys"
  using assms by (cases rule: runs.cases) (auto simp: emits_def)

section \<open>The edited program, instruction by instruction\<close>

lemma ec_length:
  "length (edit_code c a r nd g) = tail_pc c nd g + 1 + (case c ! a of LINE lr ld \<Rightarrow> 1 | _ \<Rightarrow> 0)"
  by (simp add: edit_code_def tail_pc_def b2_pc_def split: option.split instr.split)

lemma ec_old: "p < length c \<Longrightarrow> p \<noteq> a \<Longrightarrow> edit_code c a r nd g ! p = c ! p"
  by (simp add: edit_code_def nth_append)

lemma ec_redirect: "a < length c \<Longrightarrow> edit_code c a r nd g ! a = J (length c)"
  by (simp add: edit_code_def nth_append)

lemma ec_jl: "nd \<noteq> [] \<Longrightarrow> edit_code c a r nd g ! length c = JL r (length c + length nd + 1)"
  by (simp add: edit_code_def nth_append)

lemma ec_line: "i < length nd \<Longrightarrow> edit_code c a r nd g ! (length c + 1 + i) = LINE r (nd ! i)"
  by (auto simp: edit_code_def nth_append)

lemma ec_jge: "edit_code c a r nd (Some t) ! b2_pc c nd = JGE r t"
  by (simp add: edit_code_def nth_append b2_pc_def)

lemma ec_tail: "edit_code c a r nd g ! tail_pc c nd g = c ! a"
  by (simp add: edit_code_def nth_append tail_pc_def b2_pc_def split: option.split)

lemma ec_after:
  "c ! a = LINE lr ld \<Longrightarrow> edit_code c a r nd g ! (tail_pc c nd g + 1) = J (a + 1)"
  by (simp add: edit_code_def nth_append tail_pc_def b2_pc_def split: option.split)

lemma ec_length_gt: "length c < length (edit_code c a r nd g)"
  by (simp add: edit_code_def)

lemma tail_pc_lt: "tail_pc c nd g < length (edit_code c a r nd g)"
  by (simp add: ec_length)

lemma b2_le_tail: "b2_pc c nd \<le> tail_pc c nd g"
  by (simp add: tail_pc_def)

lemma len_le_b2: "length c \<le> b2_pc c nd"
  by (simp add: b2_pc_def)

text \<open>Runs that do not pass the redirected instruction are unchanged.\<close>

lemma runs_unchanged:
  "runs c sr er p ps \<Longrightarrow> emits c a \<Longrightarrow> a \<notin> set ps \<Longrightarrow> runs (edit_code c a r nd g) sr er p ps"
proof (induction rule: runs.induct)
  case (stop p)
  then have "p \<noteq> a" by simp
  with stop have "edit_code c a r nd g ! p = END" by (simp add: ec_old)
  moreover have "p < length (edit_code c a r nd g)" using stop.hyps(1) ec_length_gt [of c a r nd g] by simp
  ultimately show ?case by (rule runs.stop [rotated])
next
  case (line p lr ld ps)
  then have "p \<noteq> a" by simp
  with line have "edit_code c a r nd g ! p = LINE lr ld" by (simp add: ec_old)
  moreover have "p < length (edit_code c a r nd g)" using line.hyps(1) ec_length_gt [of c a r nd g] by simp
  moreover have "runs (edit_code c a r nd g) sr er (p + 1) ps" using line by simp
  ultimately show ?case by (blast intro: runs.line)
next
  case (jump p t ps)
  then have "p \<noteq> a" by (auto simp: emits_def)
  with jump have "edit_code c a r nd g ! p = J t" by (simp add: ec_old)
  moreover have "p < length (edit_code c a r nd g)" using jump.hyps(1) ec_length_gt [of c a r nd g] by simp
  moreover have "runs (edit_code c a r nd g) sr er t ps" using jump by simp
  ultimately show ?case by (blast intro: runs.jump)
next
  case (jge_taken p jr t ps)
  then have "p \<noteq> a" by (auto simp: emits_def)
  with jge_taken have "edit_code c a r nd g ! p = JGE jr t" by (simp add: ec_old)
  moreover have "p < length (edit_code c a r nd g)" using jge_taken.hyps(1) ec_length_gt [of c a r nd g] by simp
  moreover have "runs (edit_code c a r nd g) sr er t ps" using jge_taken by simp
  ultimately show ?case using jge_taken.hyps(3) by (blast intro: runs.jge_taken)
next
  case (jge_skip p jr t ps)
  then have "p \<noteq> a" by (auto simp: emits_def)
  with jge_skip have "edit_code c a r nd g ! p = JGE jr t" by (simp add: ec_old)
  moreover have "p < length (edit_code c a r nd g)" using jge_skip.hyps(1) ec_length_gt [of c a r nd g] by simp
  moreover have "runs (edit_code c a r nd g) sr er (p + 1) ps" using jge_skip by simp
  ultimately show ?case using jge_skip.hyps(3) by (blast intro: runs.jge_skip)
next
  case (jl_taken p jr t ps)
  then have "p \<noteq> a" by (auto simp: emits_def)
  with jl_taken have "edit_code c a r nd g ! p = JL jr t" by (simp add: ec_old)
  moreover have "p < length (edit_code c a r nd g)" using jl_taken.hyps(1) ec_length_gt [of c a r nd g] by simp
  moreover have "runs (edit_code c a r nd g) sr er t ps" using jl_taken by simp
  ultimately show ?case using jl_taken.hyps(3) by (blast intro: runs.jl_taken)
next
  case (jl_skip p jr t ps)
  then have "p \<noteq> a" by (auto simp: emits_def)
  with jl_skip have "edit_code c a r nd g ! p = JL jr t" by (simp add: ec_old)
  moreover have "p < length (edit_code c a r nd g)" using jl_skip.hyps(1) ec_length_gt [of c a r nd g] by simp
  moreover have "runs (edit_code c a r nd g) sr er (p + 1) ps" using jl_skip by simp
  ultimately show ?case using jl_skip.hyps(3) by (blast intro: runs.jl_skip)
qed

section \<open>Runs of the edited program\<close>

lemma new_pcs_Nil [simp]: "new_pcs c [] = []"
  by (simp add: new_pcs_def)

lemma runs_new_lines:
  assumes b: "runs (edit_code c a r nd g) sr er (b2_pc c nd) B" and "nd \<noteq> []"
  shows "i \<le> length nd \<Longrightarrow>
    runs (edit_code c a r nd g) sr er (length c + 1 + i) (drop i (new_pcs c nd) @ B)"
proof (induction "length nd - i" arbitrary: i)
  case 0
  then have "i = length nd" by simp
  with b assms(2) show ?case by (simp add: new_pcs_def b2_pc_def)
next
  case (Suc k)
  then have i: "i < length nd" by simp
  have IH: "runs (edit_code c a r nd g) sr er (length c + 1 + Suc i) (drop (Suc i) (new_pcs c nd) @ B)"
    using Suc.hyps(1) [of "Suc i"] Suc.hyps(2) i by simp
  have dr: "drop i (new_pcs c nd) = (length c + 1 + i) # drop (Suc i) (new_pcs c nd)"
    using i by (simp add: new_pcs_def Cons_nth_drop_Suc [symmetric])
  have lt: "length c + 1 + i < length (edit_code c a r nd g)"
    using i assms(2) by (simp add: ec_length tail_pc_def b2_pc_def)
  have "runs (edit_code c a r nd g) sr er (length c + 1 + i)
          ((length c + 1 + i) # (drop (Suc i) (new_pcs c nd) @ B))"
    using runs.line [OF lt ec_line [OF i]] IH by simp
  then show ?case by (simp add: dr)
qed

lemma runs_chunk:
  assumes a: "a < length c"
    and tl: "runs (edit_code c a r nd g) sr er (tail_pc c nd g) (tail_pc c nd g # rest)"
    and gt: "\<And>t. g = Some t \<Longrightarrow> r \<le> sr \<Longrightarrow> runs (edit_code c a r nd g) sr er t T"
  shows "runs (edit_code c a r nd g) sr er a (chunk_out c r nd g sr er T rest)"
proof -
  let ?c = "edit_code c a r nd g"
  let ?B = "if g \<noteq> None \<and> r \<le> sr then T else tail_pc c nd g # rest"
  have b2: "runs ?c sr er (b2_pc c nd) ?B"
  proof (cases g)
    case None
    with tl show ?thesis by (simp add: tail_pc_def)
  next
    case (Some t)
    have lt: "b2_pc c nd < length ?c" using b2_le_tail [of c nd g] tail_pc_lt [of c nd g a r] by simp
    have i: "?c ! b2_pc c nd = JGE r t" using Some by (simp add: ec_jge)
    show ?thesis
    proof (cases "r \<le> sr")
      case True
      from runs.jge_taken [OF lt i True gt [OF Some True]] True Some show ?thesis by simp
    next
      case False
      have "runs ?c sr er (b2_pc c nd + 1) (tail_pc c nd g # rest)"
        using tl Some by (simp add: tail_pc_def)
      from runs.jge_skip [OF lt i False this] False show ?thesis by simp
    qed
  qed
  have st: "runs ?c sr er (length c) ((if er < r then [] else new_pcs c nd) @ ?B)"
  proof (cases "nd = []")
    case True
    have e1: "b2_pc c nd = length c" using True by (simp add: b2_pc_def)
    have e2: "(if er < r then [] else new_pcs c nd) = []" using True by simp
    show ?thesis unfolding e2 using b2 unfolding e1 by simp
  next
    case False
    have lt: "length c < length ?c" by (rule ec_length_gt)
    have i: "?c ! length c = JL r (length c + length nd + 1)" using False by (rule ec_jl)
    show ?thesis
    proof (cases "er < r")
      case True
      have "runs ?c sr er (length c + length nd + 1) ?B" using b2 False by (simp add: b2_pc_def)
      from runs.jl_taken [OF lt i True this] True show ?thesis by simp
    next
      case nl: False
      have "runs ?c sr er (length c + 1) (new_pcs c nd @ ?B)"
        using runs_new_lines [OF b2 False, of 0] by simp
      from runs.jl_skip [OF lt i nl this] nl show ?thesis by simp
    qed
  qed
  have lt: "a < length ?c" using a ec_length_gt [of c a r nd g] by simp
  from runs.jump [OF lt ec_redirect [OF a] st] show ?thesis by (simp add: chunk_out_def)
qed

text \<open>The relocated copy continues as the original line did.\<close>

lemma runs_tail:
  assumes a: "a < length c" and em: "emits c a" and wf: "wf_code c rk"
    and ra: "runs c sr er a (a # rest)"
  shows "runs (edit_code c a r nd g) sr er (tail_pc c nd g) (tail_pc c nd g # rest)"
proof (cases "c ! a")
  case END
  from ra END have "rest = []" by (cases rule: runs.cases) simp_all
  moreover have "edit_code c a r nd g ! tail_pc c nd g = END" using END by (simp add: ec_tail)
  ultimately show ?thesis using tail_pc_lt [of c nd g a r] by (simp add: runs.stop)
next
  case (LINE lr ld)
  have nx: "runs c sr er (a + 1) rest" using runs_after_line [OF ra LINE] .
  have "a \<notin> set rest" using runs_line_tail_rank [OF nx wf a LINE] by fastforce
  then have nx': "runs (edit_code c a r nd g) sr er (a + 1) rest"
    using runs_unchanged [OF nx em] by simp
  have ltj: "tail_pc c nd g + 1 < length (edit_code c a r nd g)" using LINE by (simp add: ec_length)
  have j: "runs (edit_code c a r nd g) sr er (tail_pc c nd g + 1) rest"
    using runs.jump [OF ltj ec_after [OF LINE] nx'] .
  have i: "edit_code c a r nd g ! tail_pc c nd g = LINE lr ld" using LINE by (simp add: ec_tail)
  from runs.line [OF tail_pc_lt i j] show ?thesis .
qed (use em in \<open>simp_all add: emits_def\<close>)

lemma runs_redirected:
  assumes a: "a < length c" and em: "emits c a" and wf: "wf_code c rk"
    and ra: "runs c sr er a (a # rest)"
    and gt: "\<And>t. g = Some t \<Longrightarrow> r \<le> sr \<Longrightarrow> runs c sr er t T \<and> rk t < rk a"
  shows "runs (edit_code c a r nd g) sr er a (chunk_out c r nd g sr er T rest)"
proof (rule runs_chunk [OF a runs_tail [OF a em wf ra]])
  fix t assume g: "g = Some t" and le: "r \<le> sr"
  from gt [OF g le] have rt: "runs c sr er t T" and lt: "rk t < rk a" by simp_all
  have "a \<notin> set T" using runs_rank [OF rt wf] lt by fastforce
  then show "runs (edit_code c a r nd g) sr er t T" using runs_unchanged [OF rt em] by simp
qed

text \<open>Every run of the old program, in the new one.\<close>

lemma runs_edit:
  assumes a: "a < length c" and em: "emits c a" and wf: "wf_code c rk"
    and gt: "\<And>t. g = Some t \<Longrightarrow> r \<le> sr \<Longrightarrow> runs c sr er t T \<and> rk t < rk a"
  shows "runs c sr er p ps \<Longrightarrow>
    runs (edit_code c a r nd g) sr er p (splice_at a (chunk_out c r nd g sr er T) ps)"
proof (induction rule: runs.induct)
  case (stop p)
  show ?case
  proof (cases "p = a")
    case True
    have "runs c sr er a [a]" using stop True by (simp add: runs.stop)
    from runs_redirected [OF a em wf this gt] True show ?thesis by simp
  next
    case False
    with stop have "edit_code c a r nd g ! p = END" by (simp add: ec_old)
    moreover have "p < length (edit_code c a r nd g)" using stop.hyps(1) ec_length_gt [of c a r nd g] by simp
    ultimately show ?thesis using False by (simp add: runs.stop)
  qed
next
  case (line p lr ld ps)
  show ?case
  proof (cases "p = a")
    case True
    have "runs c sr er a (a # ps)" using line.hyps True by (blast intro: runs.line)
    from runs_redirected [OF a em wf this gt] True show ?thesis by simp
  next
    case False
    with line have "edit_code c a r nd g ! p = LINE lr ld" by (simp add: ec_old)
    moreover have "p < length (edit_code c a r nd g)" using line.hyps(1) ec_length_gt [of c a r nd g] by simp
    ultimately show ?thesis using False line.IH by (simp add: runs.line)
  qed
next
  case (jump p t ps)
  then have ne: "p \<noteq> a" using em by (auto simp: emits_def)
  with jump have "edit_code c a r nd g ! p = J t" by (simp add: ec_old)
  moreover have "p < length (edit_code c a r nd g)" using jump.hyps(1) ec_length_gt [of c a r nd g] by simp
  ultimately show ?case using jump.IH by (blast intro: runs.jump)
next
  case (jge_taken p jr t ps)
  then have ne: "p \<noteq> a" using em by (auto simp: emits_def)
  with jge_taken have "edit_code c a r nd g ! p = JGE jr t" by (simp add: ec_old)
  moreover have "p < length (edit_code c a r nd g)" using jge_taken.hyps(1) ec_length_gt [of c a r nd g] by simp
  ultimately show ?case using jge_taken.IH jge_taken.hyps(3) by (blast intro: runs.jge_taken)
next
  case (jge_skip p jr t ps)
  then have ne: "p \<noteq> a" using em by (auto simp: emits_def)
  with jge_skip have "edit_code c a r nd g ! p = JGE jr t" by (simp add: ec_old)
  moreover have "p < length (edit_code c a r nd g)" using jge_skip.hyps(1) ec_length_gt [of c a r nd g] by simp
  ultimately show ?case using jge_skip.IH jge_skip.hyps(3) by (blast intro: runs.jge_skip)
next
  case (jl_taken p jr t ps)
  then have ne: "p \<noteq> a" using em by (auto simp: emits_def)
  with jl_taken have "edit_code c a r nd g ! p = JL jr t" by (simp add: ec_old)
  moreover have "p < length (edit_code c a r nd g)" using jl_taken.hyps(1) ec_length_gt [of c a r nd g] by simp
  ultimately show ?case using jl_taken.IH jl_taken.hyps(3) by (blast intro: runs.jl_taken)
next
  case (jl_skip p jr t ps)
  then have ne: "p \<noteq> a" using em by (auto simp: emits_def)
  with jl_skip have "edit_code c a r nd g ! p = JL jr t" by (simp add: ec_old)
  moreover have "p < length (edit_code c a r nd g)" using jl_skip.hyps(1) ec_length_gt [of c a r nd g] by simp
  ultimately show ?case using jl_skip.IH jl_skip.hyps(3) by (blast intro: runs.jl_skip)
qed

section \<open>The edited program is acyclic\<close>

lemma er_bound:
  assumes "length c < n" "rk a < length c" "p < length c \<longrightarrow> rk p < length c" "p < n"
  shows "edit_rank c a n rk p < n"
  using assms by (auto simp: edit_rank_def)

lemma er_mono:
  "p < length c \<Longrightarrow> q < length c \<Longrightarrow> rk q < rk p \<Longrightarrow> edit_rank c a n rk q < edit_rank c a n rk p"
  by (simp add: edit_rank_def)

lemma er_new_lt:
  "length c \<le> p \<Longrightarrow> p < q \<Longrightarrow> q < n \<Longrightarrow> edit_rank c a n rk q < edit_rank c a n rk p"
  by (simp add: edit_rank_def)

lemma er_new_old:
  "length c \<le> p \<Longrightarrow> p < n \<Longrightarrow> q < length c \<Longrightarrow> rk q < rk a
     \<Longrightarrow> edit_rank c a n rk q < edit_rank c a n rk p"
  by (simp add: edit_rank_def)

lemma er_redirect:
  "a < length c \<Longrightarrow> length c < n \<Longrightarrow> edit_rank c a n rk (length c) < edit_rank c a n rk a"
  by (simp add: edit_rank_def)

lemma succs_cong: "c' ! p = c ! p \<Longrightarrow> succs c' p = succs c p"
  by (simp add: succs_def)

lemma chunk_cases:
  assumes "length c \<le> p" "p < length (edit_code c a r nd g)"
  shows "(nd \<noteq> [] \<and> p = length c) \<or> (\<exists>i < length nd. p = length c + 1 + i)
       \<or> (g \<noteq> None \<and> p = b2_pc c nd) \<or> p = tail_pc c nd g
       \<or> ((\<exists>lr ld. c ! a = LINE lr ld) \<and> p = tail_pc c nd g + 1)"
proof -
  have "p < tail_pc c nd g + 1 + (case c ! a of LINE lr ld \<Rightarrow> 1 | _ \<Rightarrow> 0)"
    using assms(2) by (simp add: ec_length)
  then have "p \<le> tail_pc c nd g \<or> ((\<exists>lr ld. c ! a = LINE lr ld) \<and> p = tail_pc c nd g + 1)"
    by (cases "c ! a") auto
  moreover have "p \<le> tail_pc c nd g \<Longrightarrow> (nd \<noteq> [] \<and> p = length c) \<or> (\<exists>i < length nd. p = length c + 1 + i)
       \<or> (g \<noteq> None \<and> p = b2_pc c nd) \<or> p = tail_pc c nd g"
  proof -
    assume le: "p \<le> tail_pc c nd g"
    show ?thesis
    proof (cases "p < b2_pc c nd")
      case True
      then have nd: "nd \<noteq> []" using assms(1) by (auto simp: b2_pc_def)
      show ?thesis
      proof (cases "p = length c")
        case True with nd show ?thesis by simp
      next
        case False
        with assms(1) True nd have "p - length c - 1 < length nd" "p = length c + 1 + (p - length c - 1)"
          by (auto simp: b2_pc_def)
        then show ?thesis by blast
      qed
    next
      case False
      with le show ?thesis by (cases g) (auto simp: tail_pc_def)
    qed
  qed
  ultimately show ?thesis by blast
qed

lemma wf_edit:
  assumes a: "a < length c" and em: "emits c a" and wf: "wf_code c rk"
    and gt: "\<And>t. g = Some t \<Longrightarrow> t < length c \<and> rk t < rk a"
  shows "wf_code (edit_code c a r nd g) (edit_rank c a (length (edit_code c a r nd g)) rk)"
proof -
  let ?c = "edit_code c a r nd g"
  let ?n = "length ?c"
  let ?rk = "edit_rank c a ?n rk"
  have n: "length c < ?n" by (rule ec_length_gt)
  have rka: "rk a < length c" using wf a by (simp add: wf_code_def)
  have bound: "\<And>p. p < ?n \<Longrightarrow> ?rk p < ?n"
  proof -
    fix p assume p: "p < ?n"
    have "p < length c \<longrightarrow> rk p < length c" using wf by (simp add: wf_code_def)
    from er_bound [OF n rka this p] show "?rk p < ?n" .
  qed
  note mono = er_mono [where c = c and a = a and n = ?n and rk = rk]
  note new_lt = er_new_lt [where c = c and a = a and n = ?n and rk = rk]
  note new_old = er_new_old [where c = c and a = a and n = ?n and rk = rk]
  have tl: "tail_pc c nd g < ?n" by (rule tail_pc_lt)
  have b2: "b2_pc c nd \<le> tail_pc c nd g" by (rule b2_le_tail)
  have step: "\<And>p q. p < ?n \<Longrightarrow> q \<in> succs ?c p \<Longrightarrow> q < ?n \<and> ?rk q < ?rk p"
  proof -
    fix p q assume p: "p < ?n" and q: "q \<in> succs ?c p"
    show "q < ?n \<and> ?rk q < ?rk p"
    proof (cases "p < length c")
      case True
      show ?thesis
      proof (cases "p = a")
        case pa: True
        have "succs ?c p = {length c}" using pa a by (simp add: succs_simps ec_redirect)
        with q have "q = length c" by simp
        then show ?thesis using n pa er_redirect [OF a n, of rk] by simp
      next
        case False
        have "succs ?c p = succs c p" using True False by (intro succs_cong) (simp add: ec_old)
        with q have "q \<in> succs c p" by simp
        from wf_succ [OF wf True this] have "q < length c" "rk q < rk p" by simp_all
        with mono [OF True, of q] n show ?thesis by simp
      qed
    next
      case False
      then have ge: "length c \<le> p" by simp
      from chunk_cases [OF ge p]
      consider (jl) "nd \<noteq> []" "p = length c"
        | (ln) i where "i < length nd" "p = length c + 1 + i"
        | (jge) "g \<noteq> None" "p = b2_pc c nd"
        | (tail) "p = tail_pc c nd g"
        | (after) lr ld where "c ! a = LINE lr ld" "p = tail_pc c nd g + 1"
        by blast
      then show ?thesis
      proof cases
        case jl
        then have "succs ?c p = {length c + length nd + 1, p + 1}" by (simp add: succs_simps ec_jl)
        with q jl have qq: "q = b2_pc c nd \<or> q = length c + 1" by (auto simp: b2_pc_def)
        then have "p < q" "q < ?n" using jl b2 tl by (auto simp: b2_pc_def)
        with new_lt [OF ge, of q] show ?thesis by simp
      next
        case ln
        have "succs ?c p = {p + 1}" unfolding ln(2) by (rule succs_simps(2) [OF ec_line [OF ln(1)]])
        with q have qq: "q = p + 1" by simp
        have "p + 1 \<le> b2_pc c nd" using ln by (auto simp: b2_pc_def)
        with b2 tl qq have "p < q" "q < ?n" by simp_all
        with new_lt [OF ge, of q] show ?thesis by simp
      next
        case jge
        then obtain t where g: "g = Some t" by auto
        then have "succs ?c p = {t, p + 1}" using jge by (simp add: succs_simps ec_jge)
        with q have "q = t \<or> q = p + 1" by simp
        then show ?thesis
        proof
          assume "q = t"
          with gt [OF g] new_old [OF ge p, of t] n show ?thesis by simp
        next
          assume qq: "q = p + 1"
          then have "q = tail_pc c nd g" using jge g by (simp add: tail_pc_def)
          with tl qq new_lt [OF ge, of q] show ?thesis by simp
        qed
      next
        case tail
        show ?thesis
        proof (cases "c ! a")
          case (LINE lr ld)
          then have "succs ?c p = {p + 1}" using tail by (simp add: succs_simps ec_tail)
          with q have qq: "q = p + 1" by simp
          have "p + 1 < ?n" using LINE tail by (simp add: ec_length)
          with qq new_lt [OF ge, of q] show ?thesis by simp
        next
          case END
          then have "succs ?c p = {}" using tail by (simp add: succs_simps ec_tail)
          with q show ?thesis by simp
        qed (use em in \<open>simp_all add: emits_def\<close>)
      next
        case after
        have "succs ?c p = {a + 1}" unfolding after(2) by (rule succs_simps(3) [OF ec_after [OF after(1)]])
        with q have qq: "q = a + 1" by simp
        have "a + 1 \<in> succs c a" using after by (simp add: succs_simps)
        from wf_succ [OF wf a this] have "a + 1 < length c" "rk (a + 1) < rk a" by simp_all
        with qq new_old [OF ge p, of "a + 1"] n show ?thesis by simp
      qed
    qed
  qed
  show ?thesis unfolding wf_code_def using bound step by blast
qed

section \<open>Subsequences, revision tests and data updates\<close>

lemma splice_at_notin: "a \<notin> set ps \<Longrightarrow> splice_at a mid ps = ps"
  by (induction ps) auto

lemma splice_at_split: "a \<notin> set xs \<Longrightarrow> splice_at a mid (xs @ a # ys) = xs @ mid ys"
  by (induction xs) auto

lemma subseq_split:
  "a \<notin> set s1 \<Longrightarrow> a \<notin> set e1 \<Longrightarrow> a \<notin> set s2 \<Longrightarrow>
   subseq (e1 @ a # e2) (s1 @ a # s2) \<Longrightarrow> subseq e1 s1 \<and> subseq e2 s2"
proof (induction s1 arbitrary: e1)
  case Nil
  show ?case
  proof (cases e1)
    case Nil
    with Nil.prems show ?thesis by simp
  next
    case (Cons x e1')
    with Nil.prems have "subseq (x # e1' @ a # e2) s2" by auto
    from list_emb_set [OF this, of a] have "a \<in> set s2" by auto
    with Nil.prems show ?thesis by simp
  qed
next
  case (Cons y s1')
  show ?case
  proof (cases e1)
    case Nil
    with Cons.prems have "subseq ([] @ a # e2) (s1' @ a # s2)" by auto
    from Cons.IH [OF _ _ _ this] Cons.prems Nil show ?thesis by auto
  next
    case e1: (Cons x e1')
    show ?thesis
    proof (cases "x = y")
      case True
      with Cons.prems e1 have "subseq (e1' @ a # e2) (s1' @ a # s2)" by auto
      from Cons.IH [OF _ _ _ this] Cons.prems e1 True show ?thesis by auto
    next
      case False
      with Cons.prems e1 have "subseq (e1 @ a # e2) (s1' @ a # s2)" by auto
      from Cons.IH [OF _ _ _ this] Cons.prems show ?thesis by auto
    qed
  qed
qed

lemma subseq_remove:
  "a \<notin> set ps \<Longrightarrow> subseq ps (s1 @ a # s2) \<Longrightarrow> subseq ps (s1 @ s2)"
proof (induction s1 arbitrary: ps)
  case Nil
  then show ?case by (cases ps) auto
next
  case (Cons y s1')
  show ?case
  proof (cases ps)
    case Nil then show ?thesis by simp
  next
    case (Cons x ps')
    show ?thesis
    proof (cases "x = y")
      case True
      with Cons.prems Cons have "subseq ps' (s1' @ a # s2)" "a \<notin> set ps'" by auto
      from Cons.IH [OF this(2,1)] True Cons show ?thesis by simp
    next
      case False
      with Cons.prems Cons have "subseq ps (s1' @ a # s2)" by auto
      from Cons.IH [OF Cons.prems(1) this] show ?thesis by auto
    qed
  qed
qed

lemma subseq_distinct_filter:
  "subseq ps qs \<Longrightarrow> distinct qs \<Longrightarrow> filter (\<lambda>q. q \<in> set ps) qs = ps"
proof (induction rule: list_emb.induct)
  case (list_emb_Nil ys)
  then show ?case by simp
next
  case (list_emb_Cons xs ys y)
  then have "y \<notin> set xs" by (auto dest: list_emb_set)
  with list_emb_Cons show ?case by simp
next
  case (list_emb_Cons2 x y xs ys)
  then have "filter (\<lambda>q. q \<in> set xs) ys = xs" "x \<notin> set ys" by simp_all
  moreover have "filter (\<lambda>q. q = x \<or> q \<in> set xs) ys = filter (\<lambda>q. q \<in> set xs) ys"
    using \<open>x \<notin> set ys\<close> by (intro filter_cong) auto
  ultimately show ?case using list_emb_Cons2 by simp
qed

lemma same_tests_jge:
  assumes "same_tests c sr er sr' er'" "p < length c" "c ! p = JGE r t"
  shows "(r \<le> sr) = (r \<le> sr')"
proof -
  have "c ! p \<in> set c" using assms(2) by simp
  from assms(1) [unfolded same_tests_def, rule_format, OF this] show ?thesis
    by (simp add: assms(3))
qed

lemma same_tests_jl:
  assumes "same_tests c sr er sr' er'" "p < length c" "c ! p = JL r t"
  shows "(er < r) = (er' < r)"
proof -
  have "c ! p \<in> set c" using assms(2) by simp
  from assms(1) [unfolded same_tests_def, rule_format, OF this] show ?thesis
    by (simp add: assms(3))
qed

lemma runs_cong:
  "runs c sr er p ps \<Longrightarrow> same_tests c sr er sr' er' \<Longrightarrow> runs c sr' er' p ps"
proof (induction rule: runs.induct)
  case (jge_taken p r t ps)
  with same_tests_jge [OF jge_taken.prems jge_taken.hyps(1,2)] show ?case
    by (auto intro: runs.jge_taken)
next
  case (jge_skip p r t ps)
  with same_tests_jge [OF jge_skip.prems jge_skip.hyps(1,2)] show ?case
    by (auto intro: runs.jge_skip)
next
  case (jl_taken p r t ps)
  with same_tests_jl [OF jl_taken.prems jl_taken.hyps(1,2)] show ?case
    by (auto intro: runs.jl_taken)
next
  case (jl_skip p r t ps)
  with same_tests_jl [OF jl_skip.prems jl_skip.hyps(1,2)] show ?case
    by (auto intro: runs.jl_skip)
qed (auto intro: runs.intros)

lemma jumps_le_same_tests:
  "jumps_le c m \<Longrightarrow> m \<le> sr \<Longrightarrow> m \<le> er \<Longrightarrow> m \<le> sr' \<Longrightarrow> m \<le> er' \<Longrightarrow> same_tests c sr er sr' er'"
  unfolding jumps_le_def same_tests_def jump_rev_def
  by (fastforce split: instr.splits)

text \<open>Replacing the data of a \<open>LINE\<close> changes no run.\<close>

lemma runs_set_data:
  assumes "c ! a = LINE lr ld"
  shows "runs c sr er p ps \<Longrightarrow> runs (c[a := LINE lr x]) sr er p ps"
proof (induction rule: runs.induct)
  case (stop p)
  then have "c[a := LINE lr x] ! p = END" using assms by (cases "p = a") auto
  with stop show ?case by (simp add: runs.stop)
next
  case (line p r d ps)
  then have "\<exists>d'. c[a := LINE lr x] ! p = LINE r d'" using assms by (cases "p = a") auto
  with line show ?case by (auto intro: runs.line)
next
  case (jump p t ps)
  then have "c[a := LINE lr x] ! p = J t" using assms by (cases "p = a") auto
  with jump show ?case by (auto intro: runs.jump)
next
  case (jge_taken p r t ps)
  then have "c[a := LINE lr x] ! p = JGE r t" using assms by (cases "p = a") auto
  with jge_taken show ?case by (auto intro: runs.jge_taken)
next
  case (jge_skip p r t ps)
  then have "c[a := LINE lr x] ! p = JGE r t" using assms by (cases "p = a") auto
  with jge_skip show ?case by (auto intro: runs.jge_skip)
next
  case (jl_taken p r t ps)
  then have "c[a := LINE lr x] ! p = JL r t" using assms by (cases "p = a") auto
  with jl_taken show ?case by (auto intro: runs.jl_taken)
next
  case (jl_skip p r t ps)
  then have "c[a := LINE lr x] ! p = JL r t" using assms by (cases "p = a") auto
  with jl_skip show ?case by (auto intro: runs.jl_skip)
qed

lemma wf_set_data:
  assumes "c ! a = LINE lr ld" "wf_code c rk"
  shows "wf_code (c[a := LINE lr x]) rk"
proof -
  have "\<And>p. p < length c \<Longrightarrow> succs (c[a := LINE lr x]) p = succs c p"
    using assms(1) by (case_tac "p = a") (auto simp: succs_def)
  with assms(2) show ?thesis by (simp add: wf_code_def)
qed

section \<open>editChunk in closed form\<close>

lemma enumerate_map_nth:
  "map (\<lambda>(i, d). f i d) (enumerate 0 xs) = map (\<lambda>i. f i (xs ! i)) [0..<length xs]"
  by (rule nth_equalityI) (simp_all add: nth_enumerate_eq)

lemma editChunk_eq:
  assumes "a1 \<le> a2" "a2 < length (lines s)" "pc (lines s ! a1) < length (code s)"
    and em: "emits (code s) (pc (lines s ! a1))"
  shows "editChunk a1 a2 r nd s =
     Inr (s\<lparr>code := edit_code (code s) (pc (lines s ! a1)) r nd
                      (if a1 < a2 then Some (pc (lines s ! (a2 - 1)) + 1) else None),
            lines := edit_lines (lines s) a1 a2 r nd (length (code s))
                      (tail_pc (code s) nd (if a1 < a2 then Some (pc (lines s ! (a2 - 1)) + 1) else None)),
            maxRev := (if r > maxRev s then r else maxRev s),
            lastCheckoutRev := r\<rparr>)"
proof -
  let ?a = "pc (lines s ! a1)"
  let ?c = "code s"
  have a1: "a1 < length (lines s)" using assms by simp
  have cases_a: "(\<exists>lr ld. ?c ! ?a = LINE lr ld) \<or> ?c ! ?a = END"
    using em by (auto simp: emits_def split: instr.splits)
  have tk: "take a1 ((lines s)[a1 := (lines s ! a1)\<lparr>pc := x\<rparr>]) = take a1 (lines s)" for x
    by simp
  have dr1: "a1 < a2 \<Longrightarrow> drop a2 ((lines s)[a1 := y]) = drop a2 (lines s)" for y
    by simp
  have dr2: "drop a1 ((lines s)[a1 := y]) = y # drop (a1 + 1) (lines s)" for y
    using a1 by (simp add: drop_update_swap [symmetric] Cons_nth_drop_Suc [symmetric] upd_conv_take_nth_drop)
  show ?thesis
  proof (cases "a1 < a2")
    case True
    from cases_a show ?thesis
    proof
      assume "\<exists>lr ld. ?c ! ?a = LINE lr ld"
      then obtain lr ld where l: "?c ! ?a = LINE lr ld" by blast
      show ?thesis using assms(1,2,3) a1 True l
        by (simp add: editChunk_def Let_def edit_code_def edit_lines_def tail_pc_def b2_pc_def
            nth_append list_update_append enumerate_map_nth tk dr1)
    next
      assume l: "?c ! ?a = END"
      show ?thesis using assms(1,2,3) a1 True l
        by (simp add: editChunk_def Let_def edit_code_def edit_lines_def tail_pc_def b2_pc_def
            nth_append list_update_append enumerate_map_nth tk dr1)
    qed
  next
    case False
    then have eq: "a2 = a1" using assms(1) by simp
    from cases_a show ?thesis
    proof
      assume "\<exists>lr ld. ?c ! ?a = LINE lr ld"
      then obtain lr ld where l: "?c ! ?a = LINE lr ld" by blast
      show ?thesis using assms(3) a1 eq l
        by (simp add: editChunk_def Let_def edit_code_def edit_lines_def tail_pc_def b2_pc_def
            nth_append list_update_append enumerate_map_nth tk dr2)
    next
      assume l: "?c ! ?a = END"
      show ?thesis using assms(3) a1 eq l
        by (simp add: editChunk_def Let_def edit_code_def edit_lines_def tail_pc_def b2_pc_def
            nth_append list_update_append enumerate_map_nth tk dr2)
    qed
  qed
qed

section \<open>Positions in a run\<close>

lemma runs_at_index:
  assumes "runs c sr er p ps" "i < length ps"
  shows "runs c sr er (ps ! i) (ps ! i # drop (Suc i) ps)"
proof -
  have "ps = take i ps @ ps ! i # drop (Suc i) ps" using assms(2) by (rule id_take_nth_drop)
  with assms(1) have "runs c sr er p (take i ps @ ps ! i # drop (Suc i) ps)" by simp
  then show ?thesis by (rule runs_suffix)
qed

lemma runs_line_index:
  assumes "runs c sr er p ps" "Suc i < length ps"
  shows "\<exists>lr ld. c ! (ps ! i) = LINE lr ld"
proof -
  have i: "i < length (butlast ps)" using assms(2) by simp
  then have "butlast ps ! i \<in> set (butlast ps)" by (rule nth_mem)
  moreover have "butlast ps ! i = ps ! i" using i by (simp add: nth_butlast)
  ultimately have "ps ! i \<in> set (butlast ps)" by simp
  with assms(1) show ?thesis by (rule runs_butlast_line)
qed

lemma runs_after_index:
  assumes "runs c sr er p ps" "Suc i < length ps"
  shows "runs c sr er (ps ! i + 1) (drop (Suc i) ps)"
proof -
  from runs_line_index [OF assms] obtain lr ld where "c ! (ps ! i) = LINE lr ld" by blast
  moreover have "runs c sr er (ps ! i) (ps ! i # drop (Suc i) ps)"
    using assms by (simp add: runs_at_index)
  ultimately show ?thesis by (rule runs_after_line [rotated])
qed

lemma target_facts:
  assumes wf: "wf_code c rk" and ru: "runs c sr er p ps" and lt: "a1 < a2" "a2 < length ps"
  shows "ps ! (a2 - 1) + 1 < length c" "rk (ps ! (a2 - 1) + 1) < rk (ps ! a1)"
    "runs c sr er (ps ! (a2 - 1) + 1) (drop a2 ps)"
proof -
  let ?q = "ps ! (a2 - 1)"
  have i: "Suc (a2 - 1) < length ps" "Suc (a2 - 1) = a2" using lt by simp_all
  from runs_after_index [OF ru i(1)] i(2) show r: "runs c sr er (?q + 1) (drop a2 ps)" by simp
  then show "?q + 1 < length c" by (rule runs_in_range)
  from runs_line_index [OF ru i(1)] obtain lr ld where l: "c ! ?q = LINE lr ld" by blast
  have ql: "?q < length c" using runs_emits [OF ru, of ?q] lt by simp
  have "?q + 1 \<in> succs c ?q" using l by (simp add: succs_simps)
  from wf_succ [OF wf ql this] have 1: "rk (?q + 1) < rk ?q" by simp
  have ra: "runs c sr er (ps ! a1) (ps ! a1 # drop (Suc a1) ps)"
    using ru lt by (simp add: runs_at_index)
  have "drop a1 ps ! (a2 - 1 - a1) \<in> set (drop a1 ps)" using lt by (intro nth_mem) simp
  moreover have "drop a1 ps ! (a2 - 1 - a1) = ?q" using lt by simp
  ultimately have "?q \<in> set (drop a1 ps)" by simp
  moreover have "drop a1 ps = ps ! a1 # drop (Suc a1) ps" using lt by (simp add: Cons_nth_drop_Suc)
  ultimately have "?q \<in> set (ps ! a1 # drop (Suc a1) ps)" by simp
  from runs_rank [OF ra wf this] 1 show "rk (?q + 1) < rk (ps ! a1)" by simp
qed

section \<open>The blocks of a valid edit script\<close>

lemma rmatch_extend:
  assumes "rmatch bs la lb A B" "take n (drop A la) = take n (drop B lb)"
    "A + n \<le> length la" "B + n \<le> length lb"
  shows "rmatch bs la lb (A + n) (B + n)"
proof (cases bs)
  case Nil
  with assms(1) have eq: "take A la = take B lb" by simp
  then have "length (take A la) = length (take B lb)" by simp
  then have "A = B" using assms(3,4) by simp
  have "take (A + n) la = take A la @ take n (drop A la)" by (rule take_add)
  moreover have "take (B + n) lb = take B lb @ take n (drop B lb)" by (rule take_add)
  ultimately show ?thesis using Nil eq assms(2) by simp
next
  case (Cons b bs')
  obtain a1 a2 b1 b2 where b: "b = (a1, a2, b1, b2)" by (cases b) auto
  from assms(1) Cons b have h: "a1 \<le> a2" "a2 \<le> A" "b1 \<le> b2" "b2 \<le> B" "a1 < a2 \<or> b1 < b2"
    "drop a2 (take A la) = drop b2 (take B lb)" "rmatch bs' la lb a1 b1" by simp_all
  have "drop a2 (take (A + n) la) = drop a2 (take A la) @ take n (drop A la)"
    using h(2) assms(3) by (simp add: take_add)
  moreover have "drop b2 (take (B + n) lb) = drop b2 (take B lb) @ take n (drop B lb)"
    using h(4) assms(4) by (simp add: take_add)
  ultimately show ?thesis using Cons b h assms(2) by simp
qed

lemma push_inv:
  assumes "dl_inv la lb (bl, a1, a2, b1, b2)" "take n (drop a2 la) = take n (drop b2 lb)"
    "a2 + n \<le> length la" "b2 + n \<le> length lb"
  shows "dl_inv la lb (push n (bl, a1, a2, b1, b2))"
proof -
  from assms(1) have h: "a1 \<le> a2" "a2 \<le> length la" "b1 \<le> b2" "b2 \<le> length lb"
    "rmatch (rev bl) la lb a1 b1" by (simp_all add: dl_inv_def)
  show ?thesis
  proof (cases "a1 \<noteq> a2 \<or> b1 \<noteq> b2")
    case True
    have "drop a2 (take (a2 + n) la) = take n (drop a2 la)" by (simp add: drop_take)
    moreover have "drop b2 (take (b2 + n) lb) = take n (drop b2 lb)" by (simp add: drop_take)
    ultimately have "rmatch ((a1, a2, b1, b2) # rev bl) la lb (a2 + n) (b2 + n)"
      using h True assms(2) by auto
    with True assms(3,4) show ?thesis by (simp add: push_def dl_inv_def)
  next
    case False
    then have e: "a1 = a2" "b1 = b2" by simp_all
    from rmatch_extend [OF h(5) _ _ _, of n] assms(2,3,4) e
    have "rmatch (rev bl) la lb (a2 + n) (b2 + n)" by simp
    with False assms(3,4) show ?thesis by (simp add: push_def dl_inv_def)
  qed
qed

lemma diff_fold_inv:
  "dl_inv la lb st \<Longrightarrow> script_ok ds (fst (dl_rest la lb st)) (snd (dl_rest la lb st)) \<Longrightarrow>
   dl_inv la lb (foldl diff_step st ds) \<and> dl_rest la lb (foldl diff_step st ds) = ([], [])"
proof (induction ds arbitrary: st)
  case Nil
  then show ?case by (cases st) (auto simp: dl_rest_def)
next
  case (Cons x ds)
  obtain opn n where x: "x = (opn, n)" by (cases x) auto
  obtain bl a1 a2 b1 b2 where st: "st = (bl, a1, a2, b1, b2)" by (cases st) auto
  from Cons.prems(1) st have h: "a1 \<le> a2" "a2 \<le> length la" "b1 \<le> b2" "b2 \<le> length lb"
    "rmatch (rev bl) la lb a1 b1" by (simp_all add: dl_inv_def)
  have "dl_inv la lb (diff_step st x) \<and>
        script_ok ds (fst (dl_rest la lb (diff_step st x))) (snd (dl_rest la lb (diff_step st x)))"
  proof (cases "opn = 0")
    case True
    with Cons.prems(2) x st have s: "n \<le> length la - a2" "n \<le> length lb - b2"
      "take n (drop a2 la) = take n (drop b2 lb)"
      "script_ok ds (drop (a2 + n) la) (drop (b2 + n) lb)"
      by (simp_all add: dl_rest_def add.commute)
    have "dl_inv la lb (push n (bl, a1, a2, b1, b2))"
      using Cons.prems(1) st s h by (intro push_inv) simp_all
    moreover have "dl_rest la lb (push n (bl, a1, a2, b1, b2)) = (drop (a2 + n) la, drop (b2 + n) lb)"
      by (simp add: push_def dl_rest_def)
    ultimately show ?thesis using True x st s by (simp add: diff_step_def)
  next
    case False
    show ?thesis
    proof (cases "opn < 0")
      case True
      with Cons.prems(2) x st have s: "n \<le> length la - a2"
        "script_ok ds (drop (a2 + n) la) (drop b2 lb)"
        by (simp_all add: dl_rest_def add.commute)
      then show ?thesis using True x st h by (simp add: diff_step_def dl_inv_def dl_rest_def)
    next
      case ge: False
      with False Cons.prems(2) x st have s: "n \<le> length lb - b2"
        "script_ok ds (drop a2 la) (drop (b2 + n) lb)"
        by (simp_all add: dl_rest_def add.commute)
      then show ?thesis using False ge x st h by (simp add: diff_step_def dl_inv_def dl_rest_def)
    qed
  qed
  with Cons.IH [of "diff_step st x"] show ?case by simp
qed

lemma diffLines_rmatch:
  assumes "script_ok (d a b) la lb"
  shows "rmatch (rev (diffLines d a b)) la lb (length la) (length lb)"
proof -
  let ?st = "foldl diff_step ([], 0, 0, 0, 0) (d a b)"
  have "dl_inv la lb ([], 0, 0, 0, 0)" by (simp add: dl_inv_def)
  moreover have "script_ok (d a b) (fst (dl_rest la lb ([], 0, 0, 0, 0))) (snd (dl_rest la lb ([], 0, 0, 0, 0)))"
    using assms by (simp add: dl_rest_def)
  ultimately have i: "dl_inv la lb ?st" "dl_rest la lb ?st = ([], [])"
    using diff_fold_inv by blast+
  obtain bl a1 a2 b1 b2 where st: "?st = (bl, a1, a2, b1, b2)" by (cases ?st) auto
  from i st have h: "a1 \<le> a2" "a2 = length la" "b1 \<le> b2" "b2 = length lb"
    "rmatch (rev bl) la lb a1 b1" by (auto simp: dl_inv_def dl_rest_def)
  show ?thesis
  proof (cases "a1 \<noteq> a2 \<or> b1 \<noteq> b2")
    case True
    with h st show ?thesis by (auto simp: diffLines_def push_def)
  next
    case False
    with h st show ?thesis by (auto simp: diffLines_def push_def)
  qed
qed

section \<open>The snapshot and the range views after an edit\<close>

lemma distinct_take_notin:
  assumes "distinct ps" "i < length ps"
  shows "ps ! i \<notin> set (take i ps)" "ps ! i \<notin> set (drop (Suc i) ps)"
proof -
  have "ps = take i ps @ ps ! i # drop (Suc i) ps" using assms(2) by (rule id_take_nth_drop)
  then have "distinct (take i ps @ ps ! i # drop (Suc i) ps)" using assms(1) by simp
  then show "ps ! i \<notin> set (take i ps)" "ps ! i \<notin> set (drop (Suc i) ps)" by auto
qed

lemma runs_lines_edit:
  assumes wf: "wf_code c rk" and ru: "runs c r r 0 ps" and le: "a1 \<le> a2" "a2 < length ps"
  shows "runs (edit_code c (ps ! a1) r nd (edit_target ps a1 a2)) r r 0 (edit_pcs c ps a1 a2 nd)"
proof -
  let ?a = "ps ! a1"
  let ?g = "edit_target ps a1 a2"
  have a1: "a1 < length ps" using le by simp
  have mem: "?a \<in> set ps" using a1 by simp
  from runs_emits [OF ru mem] have a: "?a < length c" and em: "emits c ?a" by simp_all
  have ra: "runs c r r ?a (?a # drop (Suc a1) ps)" using ru a1 by (rule runs_at_index)
  have gt: "\<And>t. ?g = Some t \<Longrightarrow> r \<le> r \<Longrightarrow> runs c r r t (drop a2 ps) \<and> rk t < rk ?a"
  proof -
    fix t assume "?g = Some t"
    then have lt: "a1 < a2" and t: "t = ps ! (a2 - 1) + 1"
      by (auto simp: edit_target_def split: if_splits)
    from target_facts [OF wf ru lt le(2)] t show "runs c r r t (drop a2 ps) \<and> rk t < rk ?a" by simp
  qed
  have "runs (edit_code c ?a r nd ?g) r r 0 (splice_at ?a (chunk_out c r nd ?g r r (drop a2 ps)) ps)"
    using runs_edit [OF a em wf gt ru] by simp
  moreover have "ps = take a1 ps @ ?a # drop (Suc a1) ps" using a1 by (rule id_take_nth_drop)
  then have "splice_at ?a (chunk_out c r nd ?g r r (drop a2 ps)) ps
      = take a1 ps @ chunk_out c r nd ?g r r (drop a2 ps) (drop (Suc a1) ps)"
    using splice_at_split [OF distinct_take_notin(1) [OF runs_distinct [OF ru wf] a1]] by metis
  moreover have "chunk_out c r nd ?g r r (drop a2 ps) (drop (Suc a1) ps)
      = new_pcs c nd @ (if a1 < a2 then drop a2 ps else tail_pc c nd None # drop (a1 + 1) ps)"
    by (simp add: chunk_out_def edit_target_def)
  ultimately show ?thesis by (simp add: edit_pcs_def)
qed

lemma jumps_edit:
  assumes "jumps_le c r" "0 \<le> r" "a < length c"
  shows "jumps_le (edit_code c a r nd g) r"
proof -
  have "set (c[a := J (length c)]) \<subseteq> insert (J (length c)) (set c)" by (rule set_update_subset_insert)
  then have 1: "\<And>i. i \<in> set (c[a := J (length c)]) \<Longrightarrow> jump_rev i \<le> r"
    using assms by (auto simp: jumps_le_def jump_rev_def)
  have 2: "jump_rev (c ! a) \<le> r" using assms by (auto simp: jumps_le_def)
  have 3: "jump_rev (JL r x) \<le> r" "jump_rev (LINE r d) \<le> r" "jump_rev (JGE r t) \<le> r"
    "jump_rev (J y) \<le> r" for x d t y
    using assms(2) by (simp_all add: jump_rev_def)
  show ?thesis
    unfolding jumps_le_def edit_code_def
    using 1 2 3 by (auto split: option.splits instr.splits if_splits)
qed

lemma jump_in_edit:
  assumes "nd \<noteq> [] \<or> g \<noteq> None"
  shows "\<exists>i \<in> set (edit_code c a r nd g). jump_rev i = r"
proof -
  have "JL r (length c + length nd + 1) \<in> set (edit_code c a r nd g) \<or>
        (\<exists>t. JGE r t \<in> set (edit_code c a r nd g))"
    using assms by (auto simp: edit_code_def)
  then show ?thesis
  proof
    assume "JL r (length c + length nd + 1) \<in> set (edit_code c a r nd g)"
    moreover have "jump_rev (JL r (length c + length nd + 1)) = r" by (simp add: jump_rev_def)
    ultimately show ?thesis by blast
  next
    assume "\<exists>t. JGE r t \<in> set (edit_code c a r nd g)"
    then obtain t where "JGE r t \<in> set (edit_code c a r nd g)" by blast
    moreover have "jump_rev (JGE r t) = r" by (simp add: jump_rev_def)
    ultimately show ?thesis by blast
  qed
qed

lemma ec_line_Suc: "i < length nd \<Longrightarrow> edit_code c a r nd g ! Suc (length c + i) = LINE r (nd ! i)"
  using ec_line [of i nd c a r g] by simp

lemma jump_kept_edit:
  assumes "i \<in> set c" "a < length c"
  shows "i \<in> set (edit_code c a r nd g)"
proof (cases "i = c ! a")
  case True
  then show ?thesis by (simp add: edit_code_def)
next
  case False
  from assms(1) obtain k where k: "k < length c" "c ! k = i" by (auto simp: in_set_conv_nth)
  with False have "k \<noteq> a" by auto
  with k have "c[a := J (length c)] ! k = i" "k < length (c[a := J (length c)])" by simp_all
  then have "i \<in> set (c[a := J (length c)])" by (metis nth_mem)
  then show ?thesis by (simp add: edit_code_def)
qed

lemma lines_edit:
  assumes wf: "wf_code c rk" and ru: "runs c sr er p ps" and le: "a1 \<le> a2" "a2 < length ps"
  shows "edit_lines (lines_of c ps) a1 a2 r nd (length c) (tail_pc c nd (edit_target ps a1 a2))
    = lines_of (edit_code c (ps ! a1) r nd (edit_target ps a1 a2)) (edit_pcs c ps a1 a2 nd)"
proof -
  let ?a = "ps ! a1"
  let ?g = "edit_target ps a1 a2"
  let ?c = "edit_code c ?a r nd ?g"
  let ?F = "\<lambda>p::nat. False"
  have a1: "a1 < length ps" using le by simp
  have di: "distinct ps" using runs_distinct [OF ru wf] .
  have same: "\<And>q. q \<in> set ps \<Longrightarrow> q \<noteq> ?a \<Longrightarrow> line_at ?c ?F q = line_at c ?F q"
  proof -
    fix q assume "q \<in> set ps" "q \<noteq> ?a"
    with runs_emits [OF ru, of q] have "?c ! q = c ! q" by (simp add: ec_old)
    then show "line_at ?c ?F q = line_at c ?F q" by (simp add: line_at_def)
  qed
  have 1: "take a1 (lines_of c ps) = lines_of ?c (take a1 ps)"
  proof -
    have "\<And>q. q \<in> set (take a1 ps) \<Longrightarrow> line_at ?c ?F q = line_at c ?F q"
      using same distinct_take_notin(1) [OF di a1] by (metis in_set_takeD)
    then show ?thesis by (simp add: lines_of_def take_map)
  qed
  have 2: "map (\<lambda>i. \<lparr>data = nd ! i, lrev = r, pc = length c + 1 + i, deleted = False\<rparr>) [0..<length nd]
      = lines_of ?c (new_pcs c nd)"
    by (simp add: lines_of_def new_pcs_def line_at_def ec_line_Suc)
  have 3: "a1 < a2 \<Longrightarrow> drop a2 (lines_of c ps) = lines_of ?c (drop a2 ps)"
  proof -
    assume lt: "a1 < a2"
    have "\<And>q. q \<in> set (drop a2 ps) \<Longrightarrow> q \<in> set (drop (Suc a1) ps)"
      using lt set_drop_subset_set_drop [of "Suc a1" a2 ps] by auto
    then have "\<And>q. q \<in> set (drop a2 ps) \<Longrightarrow> line_at ?c ?F q = line_at c ?F q"
      using same distinct_take_notin(2) [OF di a1] by (metis in_set_dropD)
    then show ?thesis by (simp add: lines_of_def drop_map)
  qed
  have 4: "drop (a1 + 1) (lines_of c ps) = lines_of ?c (drop (a1 + 1) ps)"
  proof -
    have "\<And>q. q \<in> set (drop (a1 + 1) ps) \<Longrightarrow> line_at ?c ?F q = line_at c ?F q"
      using same distinct_take_notin(2) [OF di a1] by (metis in_set_dropD Suc_eq_plus1)
    then show ?thesis by (simp add: lines_of_def drop_map)
  qed
  have 5: "(lines_of c ps ! a1)\<lparr>pc := tail_pc c nd ?g\<rparr> = line_at ?c ?F (tail_pc c nd ?g)"
    using a1 by (simp add: lines_of_def line_at_def ec_tail split: instr.splits)
  show ?thesis
  proof (cases "a1 < a2")
    case True
    with 1 2 3 show ?thesis by (simp add: edit_lines_def edit_pcs_def lines_of_def)
  next
    case False
    then have "?g = None" by (simp add: edit_target_def)
    with False 1 2 4 5 show ?thesis by (simp add: edit_lines_def edit_pcs_def lines_of_def)
  qed
qed

lemma subseq_splice:
  assumes sub: "subseq pe qe" and dq: "distinct qe"
    and mid: "\<And>e1 e2 s2. pe = e1 @ a # e2 \<Longrightarrow> subseq e2 s2 \<Longrightarrow> subseq (midE e2) (midS s2)"
    and ext: "\<And>s2. subseq s2 (midS s2)"
  shows "subseq (splice_at a midE pe) (splice_at a midS qe)"
proof (cases "a \<in> set qe")
  case False
  moreover have "a \<notin> set pe"
  proof
    assume "a \<in> set pe"
    from list_emb_set [OF sub this] obtain y where "y \<in> set qe" "a = y" by blast
    with False show False by simp
  qed
  ultimately show ?thesis using sub by (simp add: splice_at_notin)
next
  case True
  then obtain s1 s2 where qe: "qe = s1 @ a # s2" by (auto dest: split_list)
  with dq have n: "a \<notin> set s1" "a \<notin> set s2" by auto
  have sq: "splice_at a midS qe = s1 @ midS s2" using n qe by (simp add: splice_at_split)
  show ?thesis
  proof (cases "a \<in> set pe")
    case True
    then obtain e1 e2 where pe: "pe = e1 @ a # e2" "a \<notin> set e1" by (auto dest: split_list_first)
    from sub have "subseq (e1 @ a # e2) (s1 @ a # s2)" by (simp add: pe qe)
    from subseq_split [OF n(1) pe(2) n(2) this] have s: "subseq e1 s1" "subseq e2 s2" by simp_all
    have "splice_at a midE pe = e1 @ midE e2" using pe by (simp add: splice_at_split)
    moreover have "subseq (e1 @ midE e2) (s1 @ midS s2)"
      using s(1) mid [OF pe(1) s(2)] by (rule list_emb_append_mono)
    ultimately show ?thesis by (simp add: sq)
  next
    case False
    from sub have "subseq pe (s1 @ a # s2)" by (simp add: qe)
    from subseq_remove [OF False this] have 1: "subseq pe (s1 @ s2)" .
    have "subseq (s1 @ s2) (s1 @ midS s2)"
      using ext by (intro list_emb_append_mono) simp_all
    with 1 have "subseq pe (s1 @ midS s2)" by (rule subseq_order.order_trans)
    with False show ?thesis by (simp add: sq splice_at_notin)
  qed
qed

lemma union_edit:
  assumes wf: "wf_code c rk" and jl: "jumps_le c r" and un: "union_ok c"
    and ru: "runs c r r 0 ps" and le: "a1 \<le> a2" "a2 < length ps" and r0: "0 \<le> r"
  shows "union_ok (edit_code c (ps ! a1) r nd (edit_target ps a1 a2))"
  unfolding union_ok_def
proof (intro allI impI)
  fix sr er ps' qs'
  let ?a = "ps ! a1"
  let ?g = "edit_target ps a1 a2"
  let ?c = "edit_code c ?a r nd ?g"
  assume se: "sr \<le> er" and pe': "runs ?c er er 0 ps'" and qe': "runs ?c sr er 0 qs'"
  have a1: "a1 < length ps" using le by simp
  have mem: "?a \<in> set ps" using a1 by simp
  from runs_emits [OF ru mem] have a: "?a < length c" and em: "emits c ?a" by simp_all
  have c0: "0 < length c" using ru by (rule runs_in_range)
  from runs_total [OF wf c0] obtain pe where pe: "runs c er er 0 pe" by blast
  from runs_total [OF wf c0] obtain qe where qe: "runs c sr er 0 qe" by blast
  have sub: "subseq pe qe" using un se pe qe by (auto simp: union_ok_def)
  show "subseq ps' qs'"
  proof (cases "r \<le> sr")
    case True
    have "jumps_le ?c r" using jl r0 a by (rule jumps_edit)
    then have "same_tests ?c sr er er er"
      using True se by (intro jumps_le_same_tests [where m = r]) simp_all
    from runs_cong [OF qe' this] have "runs ?c er er 0 qs'" .
    with pe' have "ps' = qs'" by (rule runs_det)
    then show ?thesis by simp
  next
    case False
    let ?N = "if er < r then [] else new_pcs c nd"
    let ?tl = "tail_pc c nd ?g"
    have gtS: "\<And>t. ?g = Some t \<Longrightarrow> r \<le> sr \<Longrightarrow> runs c sr er t [] \<and> rk t < rk ?a"
      using False by simp
    from runs_edit [OF a em wf gtS qe]
    have "runs ?c sr er 0 (splice_at ?a (chunk_out c r nd ?g sr er []) qe)" .
    with qe' have qs': "qs' = splice_at ?a (chunk_out c r nd ?g sr er []) qe" by (rule runs_det)
    have midS: "chunk_out c r nd ?g sr er [] = (\<lambda>rest. ?N @ ?tl # rest)"
      using False by (simp add: chunk_out_def fun_eq_iff)
    have "\<exists>Te. \<forall>t. ?g = Some t \<longrightarrow> r \<le> er \<longrightarrow> runs c er er t Te \<and> rk t < rk ?a"
    proof (cases "a1 < a2 \<and> r \<le> er")
      case True
      have st: "same_tests c er er r r"
        using jl True by (intro jumps_le_same_tests [where m = r]) simp_all
      from target_facts [OF wf ru _ le(2), of a1] True
      have tf: "ps ! (a2 - 1) + 1 < length c" "rk (ps ! (a2 - 1) + 1) < rk ?a" by simp_all
      from runs_total [OF wf tf(1)] obtain Te where "runs c er er (ps ! (a2 - 1) + 1) Te" by blast
      with tf(2) show ?thesis by (auto simp: edit_target_def)
    next
      case False
      then show ?thesis by (auto simp: edit_target_def)
    qed
    then obtain Te where
      gtE: "\<And>t. ?g = Some t \<Longrightarrow> r \<le> er \<Longrightarrow> runs c er er t Te \<and> rk t < rk ?a" by blast
    from runs_edit [OF a em wf gtE pe]
    have "runs ?c er er 0 (splice_at ?a (chunk_out c r nd ?g er er Te) pe)" .
    with pe' have ps': "ps' = splice_at ?a (chunk_out c r nd ?g er er Te) pe" by (rule runs_det)
    have "subseq (splice_at ?a (chunk_out c r nd ?g er er Te) pe)
            (splice_at ?a (\<lambda>rest. ?N @ ?tl # rest) qe)"
    proof (rule subseq_splice [OF sub runs_distinct [OF qe wf]])
      fix s2 :: "nat list"
      show "subseq s2 (?N @ ?tl # s2)"
        by (intro subseq_drop_many list_emb_Cons subseq_order.order_refl)
    next
      fix e1 e2 s2 assume pe_eq: "pe = e1 @ ?a # e2" and s: "subseq e2 s2"
      show "subseq (chunk_out c r nd ?g er er Te e2) (?N @ ?tl # s2)"
      proof (cases "?g \<noteq> None \<and> r \<le> er")
        case no: False
        then have "chunk_out c r nd ?g er er Te e2 = ?N @ ?tl # e2" by (auto simp: chunk_out_def)
        then show ?thesis using s by (simp add: subseq_append')
      next
        case True
        then have lt: "a1 < a2" and re: "r \<le> er" by (auto simp: edit_target_def split: if_splits)
        have g: "?g = Some (ps ! (a2 - 1) + 1)" using lt by (simp add: edit_target_def)
        have st: "same_tests c er er r r"
          using jl re by (intro jumps_le_same_tests [where m = r]) simp_all
        from runs_cong [OF pe st] ru have pe_ps: "pe = ps" by (rule runs_det)
        from gtE [OF g re] have "runs c er er (ps ! (a2 - 1) + 1) Te" by simp
        from runs_cong [OF this st] target_facts(3) [OF wf ru lt le(2)]
        have Te: "Te = drop a2 ps" by (rule runs_det)
        have di: "distinct ps" using runs_distinct [OF ru wf] .
        have "ps = take a1 ps @ ?a # drop (Suc a1) ps" using a1 by (rule id_take_nth_drop)
        with pe_eq pe_ps have eq: "e1 @ ?a # e2 = take a1 ps @ ?a # drop (Suc a1) ps" by simp
        have "distinct (e1 @ ?a # e2)" using di by (simp add: pe_eq [symmetric] pe_ps)
        then have ne: "?a \<notin> set e1" "?a \<notin> set e2" by simp_all
        from append_Cons_eq_iff [OF ne, of "take a1 ps" "drop (Suc a1) ps"] eq
        have e2: "e2 = drop (Suc a1) ps" by blast
        have "Te = drop (a2 - Suc a1) e2" using lt by (simp add: Te e2)
        then have "suffix Te e2" by (simp add: suffix_drop)
        then have "subseq Te e2" by (rule suffix_imp_subseq)
        from this s have "subseq Te s2" by (rule subseq_order.order_trans)
        then have "subseq Te (?tl # s2)" by (rule list_emb_Cons)
        moreover have "chunk_out c r nd ?g er er Te e2 = ?N @ Te" using True by (simp add: chunk_out_def)
        ultimately show ?thesis by (simp add: subseq_append')
      qed
    qed
    then show ?thesis by (simp add: ps' qs' midS)
  qed
qed

section \<open>Older snapshots are kept by an edit\<close>

lemma data_line_of: "data (line_at c del p) = fst (line_of (c ! p))"
  by (simp add: line_at_def line_of_def split: instr.splits)

lemma lrev_line_of: "lrev (line_at c del p) = snd (line_of (c ! p))"
  by (simp add: line_at_def line_of_def split: instr.splits)

lemma keeps_refl: "keeps c c r"
  by (auto simp: keeps_def)

lemma keeps_trans:
  assumes "keeps c c' r" "keeps c' c'' r"
  shows "keeps c c'' r"
  unfolding keeps_def
proof (intro allI impI)
  fix k ps
  assume k: "k < r" and ru: "runs c k k 0 ps"
  from assms(1) k ru obtain ps' where 1: "runs c' k k 0 ps'"
    "map (\<lambda>p. line_of (c' ! p)) ps' = map (\<lambda>p. line_of (c ! p)) ps"
    unfolding keeps_def by blast
  from assms(2) k 1(1) obtain ps'' where 2: "runs c'' k k 0 ps''"
    "map (\<lambda>p. line_of (c'' ! p)) ps'' = map (\<lambda>p. line_of (c' ! p)) ps'"
    unfolding keeps_def by blast
  from 1(2) 2 show "\<exists>ps'. runs c'' k k 0 ps' \<and>
      map (\<lambda>p. line_of (c'' ! p)) ps' = map (\<lambda>p. line_of (c ! p)) ps" by auto
qed

lemma splice_keep:
  assumes tp: "c' ! tp = c ! a" and old: "\<And>p. p < length c \<Longrightarrow> p \<noteq> a \<Longrightarrow> c' ! p = c ! p"
  shows "distinct ps \<Longrightarrow> (\<And>p. p \<in> set ps \<Longrightarrow> p < length c) \<Longrightarrow>
    map (\<lambda>p. line_of (c' ! p)) (splice_at a ((#) tp) ps) = map (\<lambda>p. line_of (c ! p)) ps"
proof (induction ps)
  case Nil
  then show ?case by simp
next
  case (Cons p ps)
  show ?case
  proof (cases "p = a")
    case True
    with Cons.prems(1) have "a \<notin> set ps" by simp
    then have "\<And>q. q \<in> set ps \<Longrightarrow> c' ! q = c ! q" using old Cons.prems(2) by auto
    then have "map (\<lambda>p. line_of (c' ! p)) ps = map (\<lambda>p. line_of (c ! p)) ps" by simp
    with True tp show ?thesis by simp
  next
    case False
    have "c' ! p = c ! p" using old False Cons.prems(2) by simp
    moreover have "map (\<lambda>p. line_of (c' ! p)) (splice_at a ((#) tp) ps) = map (\<lambda>p. line_of (c ! p)) ps"
      using Cons.IH Cons.prems by simp
    ultimately show ?thesis using False by simp
  qed
qed

lemma keeps_edit:
  assumes a: "a < length c" and em: "emits c a" and wf: "wf_code c rk"
  shows "keeps c (edit_code c a r nd g) r"
  unfolding keeps_def
proof (intro allI impI)
  fix k ps
  assume k: "k < r" and ru: "runs c k k 0 ps"
  let ?c' = "edit_code c a r nd g"
  have gt: "\<And>t. g = Some t \<Longrightarrow> r \<le> k \<Longrightarrow> runs c k k t [] \<and> rk t < rk a" using k by simp
  from runs_edit [OF a em wf gt ru]
  have "runs ?c' k k 0 (splice_at a (chunk_out c r nd g k k []) ps)" .
  moreover have "chunk_out c r nd g k k [] = (#) (tail_pc c nd g)"
    using k by (intro ext) (simp add: chunk_out_def)
  ultimately have 1: "runs ?c' k k 0 (splice_at a ((#) (tail_pc c nd g)) ps)" by simp
  have "map (\<lambda>p. line_of (?c' ! p)) (splice_at a ((#) (tail_pc c nd g)) ps)
      = map (\<lambda>p. line_of (c ! p)) ps"
  proof (rule splice_keep)
    show "?c' ! tail_pc c nd g = c ! a" by (rule ec_tail)
    show "\<And>p. p < length c \<Longrightarrow> p \<noteq> a \<Longrightarrow> ?c' ! p = c ! p" by (rule ec_old)
    show "distinct ps" using ru wf by (rule runs_distinct)
    show "\<And>p. p \<in> set ps \<Longrightarrow> p < length c" using runs_emits [OF ru] by simp
  qed
  with 1 show "\<exists>ps'. runs ?c' k k 0 ps' \<and>
      map (\<lambda>p. line_of (?c' ! p)) ps' = map (\<lambda>p. line_of (c ! p)) ps" by blast
qed

lemma lines_le_edit:
  assumes "lines_le c r" "0 \<le> r" "a < length c"
  shows "lines_le (edit_code c a r nd g) r"
proof -
  have "set (c[a := J (length c)]) \<subseteq> insert (J (length c)) (set c)" by (rule set_update_subset_insert)
  then have 1: "\<And>i. i \<in> set (c[a := J (length c)]) \<Longrightarrow> snd (line_of i) \<le> r"
    using assms by (auto simp: lines_le_def line_of_def)
  have 2: "snd (line_of (c ! a)) \<le> r" using assms by (auto simp: lines_le_def)
  have 3: "snd (line_of (JL r x)) \<le> r" "snd (line_of (LINE r d)) \<le> r" "snd (line_of (JGE r t)) \<le> r"
    "snd (line_of (J y)) \<le> r" for x d t y
    using assms(2) by (simp_all add: line_of_def)
  show ?thesis
    unfolding lines_le_def edit_code_def
    using 1 2 3 by (auto split: option.splits instr.splits if_splits)
qed

lemma lines_le_mono: "lines_le c m \<Longrightarrow> m \<le> m' \<Longrightarrow> lines_le c m'"
  by (fastforce simp: lines_le_def)

section \<open>The loop over the blocks\<close>

lemma pc_line_at [simp]: "pc (line_at c del p) = p"
  by (simp add: line_at_def split: instr.splits)

lemma length_lines_of [simp]: "length (lines_of c ps) = length ps"
  by (simp add: lines_of_def)

lemma pc_lines_of [simp]: "i < length ps \<Longrightarrow> pc (lines_of c ps ! i) = ps ! i"
  by (simp add: lines_of_def)

lemma data_edit_lines:
  assumes "a1 \<le> a2" "a2 < length ls"
  shows "map data (butlast (edit_lines ls a1 a2 r nd st tp))
     = take a1 (map data (butlast ls)) @ nd @ drop a2 (map data (butlast ls))"
proof -
  let ?new = "map (\<lambda>i. \<lparr>data = nd ! i, lrev = r, pc = st + 1 + i, deleted = False\<rparr>) [0..<length nd]"
  let ?rest = "if a1 < a2 then drop a2 ls else (ls ! a1)\<lparr>pc := tp\<rparr> # drop (a1 + 1) ls"
  have ne: "?rest \<noteq> []" using assms by simp
  have nd: "map data ?new = nd" by (simp add: map_nth comp_def)
  have rest: "map data (butlast ?rest) = drop a2 (map data (butlast ls))"
  proof (cases "a1 < a2")
    case True
    then show ?thesis by (simp add: butlast_drop drop_map)
  next
    case False
    then have e: "a2 = a1" using assms by simp
    have "map data ?rest = drop a1 (map data ls)"
      using assms e by (simp add: drop_map [symmetric] Cons_nth_drop_Suc [symmetric])
    then have "map data (butlast ?rest) = butlast (drop a1 (map data ls))"
      by (simp add: map_butlast)
    then show ?thesis using e by (simp add: butlast_drop map_butlast)
  qed
  have tk: "map data (take a1 ls) = take a1 (map data (butlast ls))"
    using assms by (simp add: butlast_conv_take take_map min_def)
  have "butlast (edit_lines ls a1 a2 r nd st tp) = take a1 ls @ ?new @ butlast ?rest"
    unfolding edit_lines_def using ne by (simp add: butlast_append)
  then show ?thesis using nd rest tk by simp
qed

lemma splice_data:
  assumes "a1 \<le> a2" "a2 \<le> A" "b1 \<le> b2" "b2 \<le> B" "A \<le> length la" "B \<le> length lb"
    and eq: "drop a2 (take A la) = drop b2 (take B lb)"
  shows "take a1 (take A la @ drop B lb) @ take (b2 - b1) (drop b1 lb) @ drop a2 (take A la @ drop B lb)
     = take a1 la @ drop b1 (lb :: 'a list)"
proof -
  have 1: "take a1 (take A la @ drop B lb) = take a1 la" using assms by (simp add: min_def)
  have 2: "drop a2 (take A la @ drop B lb) = drop a2 (take A la) @ drop B lb" using assms by simp
  have 3: "drop b2 (take B lb) @ drop B lb = drop b2 lb"
  proof -
    have "drop b2 lb = drop b2 (take B lb @ drop B lb)" by simp
    also have "\<dots> = drop b2 (take B lb) @ drop (b2 - length (take B lb)) (drop B lb)"
      by (rule drop_append)
    also have "\<dots> = drop b2 (take B lb) @ drop B lb" using assms by simp
    finally show ?thesis by simp
  qed
  have 4: "take (b2 - b1) (drop b1 lb) @ drop b2 lb = drop b1 lb"
  proof -
    have "drop b2 lb = drop (b2 - b1) (drop b1 lb)" using assms by simp
    then show ?thesis by (simp only: append_take_drop_id)
  qed
  show ?thesis by (simp only: 1 2 eq append_assoc 3 4)
qed

lemma editChunk_loop_inv:
  assumes li: "loop_inv r (take A la @ drop B lb) s" and r0: "0 \<le> r"
    and AB: "A \<le> length la" "B \<le> length lb"
    and blk: "a1 \<le> a2" "a2 \<le> A" "b1 \<le> b2" "b2 \<le> B"
    and eq: "drop a2 (take A la) = drop b2 (take B lb)"
  shows "\<exists>s'. editChunk a1 a2 r (take (b2 - b1) (drop b1 lb)) s = Inr s'
      \<and> loop_inv r (take a1 la @ drop b1 lb) s'
      \<and> maxRev s' = (if r > maxRev s then r else maxRev s) \<and> lastCheckoutRev s' = r
      \<and> tsMap s' = tsMap s \<and> extraMap s' = extraMap s \<and> content s' = content s
      \<and> ((a1 < a2 \<or> b1 < b2) \<longrightarrow> (\<exists>i \<in> set (code s'). jump_rev i = r))
      \<and> (\<forall>i \<in> set (code s). i \<in> set (code s'))
      \<and> keeps (code s) (code s') r \<and> (lines_le (code s) r \<longrightarrow> lines_le (code s') r)"
proof -
  let ?c = "code s"
  let ?nd = "take (b2 - b1) (drop b1 lb)"
  from li obtain rk ps where wf: "wf_code ?c rk" and jl: "jumps_le ?c r" and un: "union_ok ?c"
    and ru: "runs ?c r r 0 ps" and ls: "lines s = lines_of ?c ps"
    and dat: "map data (butlast (lines s)) = take A la @ drop B lb"
    by (auto simp: loop_inv_def)
  have "length (map data (butlast (lines s))) = length (take A la @ drop B lb)" using dat by simp
  then have "length ps - 1 = A + (length lb - B)" using ls AB by simp
  then have a2: "a2 < length ps" using blk runs_nonempty [OF ru] by (cases ps) auto
  then have a1: "a1 < length ps" using blk by simp
  let ?a = "ps ! a1"
  let ?g = "edit_target ps a1 a2"
  let ?c' = "edit_code ?c ?a r ?nd ?g"
  have mem: "?a \<in> set ps" using a1 by simp
  from runs_emits [OF ru mem] have a: "?a < length ?c" and em: "emits ?c ?a" by simp_all
  have pa: "pc (lines s ! a1) = ?a" using a1 ls by simp
  have g: "(if a1 < a2 then Some (pc (lines s ! (a2 - 1)) + 1) else None) = ?g"
    using a2 ls by (simp add: edit_target_def)
  have ec: "editChunk a1 a2 r ?nd s =
     Inr (s\<lparr>code := ?c', lines := edit_lines (lines s) a1 a2 r ?nd (length ?c) (tail_pc ?c ?nd ?g),
            maxRev := (if r > maxRev s then r else maxRev s), lastCheckoutRev := r\<rparr>)"
  proof -
    have 1: "a2 < length (lines s)" using a2 ls by simp
    have 2: "pc (lines s ! a1) < length ?c" using a pa by simp
    have 3: "emits ?c (pc (lines s ! a1))" using em pa by simp
    from editChunk_eq [OF blk(1) 1 2 3, of r ?nd] show ?thesis unfolding pa g .
  qed
  let ?s' = "s\<lparr>code := ?c', lines := edit_lines (lines s) a1 a2 r ?nd (length ?c) (tail_pc ?c ?nd ?g),
            maxRev := (if r > maxRev s then r else maxRev s), lastCheckoutRev := r\<rparr>"
  have gt: "\<And>t. ?g = Some t \<Longrightarrow> t < length ?c \<and> rk t < rk ?a"
  proof -
    fix t assume "?g = Some t"
    then have lt: "a1 < a2" and t: "t = ps ! (a2 - 1) + 1"
      by (auto simp: edit_target_def split: if_splits)
    from target_facts(1,2) [OF wf ru lt a2] t show "t < length ?c \<and> rk t < rk ?a" by simp
  qed
  have wf': "wf_code ?c' (edit_rank ?c ?a (length ?c') rk)" using a em wf gt by (rule wf_edit)
  have jl': "jumps_le ?c' r" using jl r0 a by (rule jumps_edit)
  have un': "union_ok ?c'" using wf jl un ru blk(1) a2 r0 by (rule union_edit)
  have ru': "runs ?c' r r 0 (edit_pcs ?c ps a1 a2 ?nd)" using wf ru blk(1) a2 by (rule runs_lines_edit)
  have ls': "lines ?s' = lines_of ?c' (edit_pcs ?c ps a1 a2 ?nd)"
    using lines_edit [OF wf ru blk(1) a2, of r ?nd] ls by simp
  have dat': "map data (butlast (lines ?s')) = take a1 la @ drop b1 lb"
  proof -
    have "a2 < length (lines s)" using a2 ls by simp
    from data_edit_lines [OF blk(1) this, of r ?nd "length ?c" "tail_pc ?c ?nd ?g"]
    have "map data (butlast (lines ?s')) =
        take a1 (take A la @ drop B lb) @ ?nd @ drop a2 (take A la @ drop B lb)"
      by (simp add: dat)
    also have "\<dots> = take a1 la @ drop b1 lb" using blk AB eq by (rule splice_data)
    finally show ?thesis .
  qed
  have li': "loop_inv r (take a1 la @ drop b1 lb) ?s'"
    unfolding loop_inv_def using wf' jl' un' ru' ls' dat' by (auto simp del: linelog.simps)
  have jmp: "(a1 < a2 \<or> b1 < b2) \<longrightarrow> (\<exists>i \<in> set ?c'. jump_rev i = r)"
  proof
    assume h: "a1 < a2 \<or> b1 < b2"
    have "?nd \<noteq> [] \<or> ?g \<noteq> None"
    proof (cases "a1 < a2")
      case True then show ?thesis by (simp add: edit_target_def)
    next
      case False
      with h have "b1 < b2" by simp
      with blk AB have "length ?nd = b2 - b1" by simp
      with \<open>b1 < b2\<close> show ?thesis by auto
    qed
    then show "\<exists>i \<in> set ?c'. jump_rev i = r" by (rule jump_in_edit)
  qed
  have kept: "\<forall>i \<in> set ?c. i \<in> set ?c'" using a by (auto intro: jump_kept_edit)
  have kp: "keeps ?c ?c' r" using a em wf by (rule keeps_edit)
  have ll: "lines_le ?c r \<longrightarrow> lines_le ?c' r" using r0 a by (auto intro: lines_le_edit)
  show ?thesis
    using ec li' jmp kept kp ll by (intro exI [of _ ?s']) simp
qed

lemma editChunks_loop:
  "rmatch bs la lb A B \<Longrightarrow> loop_inv r (take A la @ drop B lb) s \<Longrightarrow> 0 \<le> r \<Longrightarrow>
   A \<le> length la \<Longrightarrow> B \<le> length lb \<Longrightarrow>
   \<exists>s'. editChunks bs r lb s = Inr s' \<and> loop_inv r lb s'
     \<and> tsMap s' = tsMap s \<and> extraMap s' = extraMap s \<and> content s' = content s
     \<and> (\<forall>i \<in> set (code s). i \<in> set (code s'))
     \<and> keeps (code s) (code s') r \<and> (lines_le (code s) r \<longrightarrow> lines_le (code s') r)
     \<and> (bs = [] \<longrightarrow> s' = s)
     \<and> (bs \<noteq> [] \<longrightarrow> maxRev s' = (if r > maxRev s then r else maxRev s) \<and> lastCheckoutRev s' = r
          \<and> (\<exists>i \<in> set (code s'). jump_rev i = r))"
proof (induction bs arbitrary: s A B)
  case Nil
  then have "take A la = take B lb" by simp
  then have "take A la @ drop B lb = lb" by simp
  with Nil show ?case by (simp add: keeps_refl)
next
  case (Cons b bs)
  obtain a1 a2 b1 b2 where b: "b = (a1, a2, b1, b2)" by (cases b) auto
  from Cons.prems(1) b have h: "a1 \<le> a2" "a2 \<le> A" "b1 \<le> b2" "b2 \<le> B" "a1 < a2 \<or> b1 < b2"
    "drop a2 (take A la) = drop b2 (take B lb)" "rmatch bs la lb a1 b1" by simp_all
  from editChunk_loop_inv [OF Cons.prems(2,3,4,5) h(1,2,3,4,6)]
  obtain s1 where s1: "editChunk a1 a2 r (take (b2 - b1) (drop b1 lb)) s = Inr s1"
    and li1: "loop_inv r (take a1 la @ drop b1 lb) s1"
    and f1: "maxRev s1 = (if r > maxRev s then r else maxRev s)" "lastCheckoutRev s1 = r"
      "tsMap s1 = tsMap s" "extraMap s1 = extraMap s" "content s1 = content s"
    and j1: "\<exists>i \<in> set (code s1). jump_rev i = r"
    and k1: "\<forall>i \<in> set (code s). i \<in> set (code s1)"
    and kp1: "keeps (code s) (code s1) r" and ll1: "lines_le (code s) r \<longrightarrow> lines_le (code s1) r"
    using h(5) by blast
  have le: "a1 \<le> length la" "b1 \<le> length lb" using h Cons.prems(4,5) by simp_all
  from Cons.IH [OF h(7) li1 Cons.prems(3) le]
  obtain s' where s': "editChunks bs r lb s1 = Inr s'" and li': "loop_inv r lb s'"
    and f': "tsMap s' = tsMap s1" "extraMap s' = extraMap s1" "content s' = content s1"
    and k': "\<forall>i \<in> set (code s1). i \<in> set (code s')"
    and kp': "keeps (code s1) (code s') r" and ll': "lines_le (code s1) r \<longrightarrow> lines_le (code s') r"
    and e': "bs = [] \<longrightarrow> s' = s1"
    and n': "bs \<noteq> [] \<longrightarrow> maxRev s' = (if r > maxRev s1 then r else maxRev s1) \<and> lastCheckoutRev s' = r"
    by blast
  have mr: "maxRev s' = (if r > maxRev s then r else maxRev s)" "lastCheckoutRev s' = r"
    using e' n' f1 by (cases "bs = []"; simp)+
  have "editChunks (b # bs) r lb s = Inr s'" using b s1 s' by simp
  moreover have "\<exists>i \<in> set (code s'). jump_rev i = r" using j1 k' by blast
  moreover have "\<forall>i \<in> set (code s). i \<in> set (code s')" using k1 k' by blast
  moreover have "keeps (code s) (code s') r" using kp1 kp' by (rule keeps_trans)
  moreover have "lines_le (code s) r \<longrightarrow> lines_le (code s') r" using ll1 ll' by blast
  ultimately show ?case using li' f' f1 mr by (intro exI [of _ s']) simp
qed

lemma concat_splitLines: "concat (splitLines s) = s"
proof (induction s rule: splitLines.induct)
  case (1 s)
  show ?case
  proof (cases "s = []")
    case True
    then show ?thesis by (simp add: splitLines.simps)
  next
    case False
    let ?n = "length (takeWhile (\<lambda>ch. ch \<noteq> CHR 0x0A) s)"
    have "splitLines s = take (?n + 1) s # splitLines (drop (?n + 1) s)"
      using False by (subst splitLines.simps) (simp add: Let_def)
    moreover have "concat (splitLines (drop (?n + 1) s)) = drop (?n + 1) s"
      using 1 [OF False refl] by simp
    ultimately show ?thesis by simp
  qed
qed

lemma splitLines_inj: "splitLines a = splitLines b \<Longrightarrow> a = b"
  by (metis concat_splitLines)

lemma rmatch_Nil_eq:
  assumes "rmatch [] la lb (length la) (length lb)"
  shows "la = lb"
  using assms by simp

section \<open>recordText keeps the invariant\<close>

lemma runs_END: "runs [END] sr er 0 ps \<longleftrightarrow> ps = [0]"
proof
  assume "runs [END] sr er 0 ps"
  moreover have "runs [END] sr er 0 [0]" by (rule runs.stop) simp_all
  ultimately show "ps = [0]" by (rule runs_det)
next
  assume "ps = [0]"
  then show "runs [END] sr er 0 ps" by (simp add: runs.stop)
qed

lemma inv_fresh: "inv fresh"
proof -
  have "wf_code [END] (\<lambda>p. 0)" by (simp add: wf_code_def succs_def)
  then have "\<exists>rk. wf_code [END] rk" by blast
  moreover have "jumps_le [END] 0" by (simp add: jumps_le_def jump_rev_def)
  moreover have "union_ok [END]" by (simp add: union_ok_def runs_END)
  ultimately have "code_ok (code fresh) (maxRev fresh)" by (simp add: code_ok_def fresh_def)
  moreover have "runs (code fresh) (maxRev fresh) (maxRev fresh) 0 [0]"
    by (simp add: fresh_def runs_END)
  moreover have "lines fresh = lines_of (code fresh) [0]"
    by (simp add: fresh_def lines_of_def line_at_def)
  moreover have "map data (butlast (lines fresh)) = splitLines (content fresh)"
    by (simp add: fresh_def splitLines.simps)
  ultimately show ?thesis unfolding inv_def by (auto simp: fresh_def)
qed

lemma trivial_cond_cases:
  assumes rm: "rmatch (rev blks) la lb (length la) (length lb)"
    and len: "length (lines s) = length la + 1"
  shows "trivial_cond blks s = Inr False \<or>
     (trivial_cond blks s = Inr True \<and>
      (\<exists>a1 b1. blks = [(a1, a1 + 1, b1, b1 + 1)] \<and> a1 < length la \<and> b1 < length lb
         \<and> lrev (lines s ! a1) = maxRev s
         \<and> la[a1 := lb ! b1] = lb))"
proof (cases blks)
  case Nil
  then show ?thesis by (simp add: trivial_cond_def)
next
  case (Cons b bs)
  obtain a1 a2 b1 b2 where b: "b = (a1, a2, b1, b2)" by (cases b) auto
  show ?thesis
  proof (cases "bs = [] \<and> a2 = a1 + 1 \<and> b2 = b1 + 1")
    case False
    then show ?thesis using Cons b by (auto simp: trivial_cond_def split: list.splits)
  next
    case True
    with Cons b have blks: "blks = [(a1, a1 + 1, b1, b1 + 1)]" by simp
    from rm blks have h: "a1 + 1 \<le> length la" "b1 + 1 \<le> length lb"
      "drop (a1 + 1) la = drop (b1 + 1) lb" "take a1 la = take b1 lb" by simp_all
    from h(4) have "length (take a1 la) = length (take b1 lb)" by simp
    with h(1,2) have ab: "a1 = b1" by simp
    have "la[a1 := lb ! b1] = take a1 la @ lb ! b1 # drop (a1 + 1) la"
      using h(1) by (simp add: upd_conv_take_nth_drop)
    also have "\<dots> = take b1 lb @ lb ! b1 # drop (Suc b1) lb" using h(3,4) by simp
    also have "\<dots> = lb" using h(2) by (simp add: id_take_nth_drop [symmetric])
    finally have upd: "la[a1 := lb ! b1] = lb" .
    have "a1 < length (lines s)" using h(1) len by simp
    then show ?thesis using blks h(1,2) upd by (auto simp: trivial_cond_def)
  qed
qed

lemma runs_unset_data:
  assumes "c ! a = LINE lr ld" "a < length c" "runs (c[a := LINE lr x]) sr er p ps"
  shows "runs c sr er p ps"
proof -
  have "c[a := LINE lr x] ! a = LINE lr x" using assms(2) by simp
  from runs_set_data [OF this assms(3), of ld]
  have "runs (c[a := LINE lr ld]) sr er p ps" by simp
  moreover have "c[a := LINE lr ld] = c" using list_update_id [of c a] assms(1) by simp
  ultimately show ?thesis by simp
qed

lemma code_ok_set_data:
  assumes ok: "code_ok c m" and l: "c ! a = LINE lr ld" and a: "a < length c"
  shows "code_ok (c[a := LINE lr x]) m"
proof -
  from ok obtain rk where wf: "wf_code c rk" and jl: "jumps_le c m" and un: "union_ok c"
    and m0: "0 \<le> m" and mx: "m = 0 \<or> (\<exists>i \<in> set c. jump_rev i = m)"
    by (auto simp: code_ok_def)
  have "wf_code (c[a := LINE lr x]) rk" using l wf by (rule wf_set_data)
  moreover have "jumps_le (c[a := LINE lr x]) m"
  proof -
    have "set (c[a := LINE lr x]) \<subseteq> insert (LINE lr x) (set c)" by (rule set_update_subset_insert)
    then show ?thesis using jl m0 by (auto simp: jumps_le_def jump_rev_def)
  qed
  moreover have "union_ok (c[a := LINE lr x])"
    unfolding union_ok_def
  proof (intro allI impI)
    fix sr er ps qs
    assume "sr \<le> er" "runs (c[a := LINE lr x]) er er 0 ps" "runs (c[a := LINE lr x]) sr er 0 qs"
    with runs_unset_data [OF l a] un show "subseq ps qs" by (auto simp: union_ok_def)
  qed
  moreover have "m = 0 \<or> (\<exists>i \<in> set (c[a := LINE lr x]). jump_rev i = m)"
  proof (cases "m = 0")
    case False
    with mx obtain i where i: "i \<in> set c" "jump_rev i = m" by blast
    then obtain k where k: "k < length c" "c ! k = i" by (auto simp: in_set_conv_nth)
    have "k \<noteq> a" using k i False l by (auto simp: jump_rev_def)
    with k have "c[a := LINE lr x] ! k = i" "k < length (c[a := LINE lr x])" by simp_all
    then have "i \<in> set (c[a := LINE lr x])" by (metis nth_mem)
    with i show ?thesis by blast
  qed simp
  ultimately show ?thesis using m0 unfolding code_ok_def by blast
qed

lemma lines_set_data:
  assumes wf: "wf_code c rk" and ru: "runs c sr er p ps" and a1: "a1 < length ps"
    and l: "c ! (ps ! a1) = LINE lr ld"
  shows "(lines_of c ps)[a1 := (lines_of c ps ! a1)\<lparr>data := x\<rparr>]
     = lines_of (c[ps ! a1 := LINE lr x]) ps"
proof (rule nth_equalityI)
  show "length ((lines_of c ps)[a1 := (lines_of c ps ! a1)\<lparr>data := x\<rparr>])
      = length (lines_of (c[ps ! a1 := LINE lr x]) ps)" by simp
next
  fix i assume "i < length ((lines_of c ps)[a1 := (lines_of c ps ! a1)\<lparr>data := x\<rparr>])"
  then have i: "i < length ps" by simp
  have di: "distinct ps" using runs_distinct [OF ru wf] .
  have al: "ps ! a1 < length c" using runs_emits [OF ru, of "ps ! a1"] a1 by simp
  show "(lines_of c ps)[a1 := (lines_of c ps ! a1)\<lparr>data := x\<rparr>] ! i
      = lines_of (c[ps ! a1 := LINE lr x]) ps ! i"
  proof (cases "i = a1")
    case True
    then show ?thesis using a1 l al by (simp add: lines_of_def line_at_def)
  next
    case False
    then have "ps ! i \<noteq> ps ! a1" using di i a1 by (simp add: nth_eq_iff_index_eq)
    then show ?thesis using False i a1 by (simp add: lines_of_def line_at_def)
  qed
qed

lemma recordText_general:
  assumes inv: "inv s" and ne: "content s \<noteq> X"
    and rm: "rmatch (rev (diffLines d (content s) X)) (splitLines (content s)) (splitLines X)
              (length (splitLines (content s))) (length (splitLines X))"
    and tc: "trivial_cond (diffLines d (content s) X) s = Inr False"
  shows "\<exists>s'. recordText d X ts ex now s = Inr (maxRev s + 1, s') \<and> inv s'
     \<and> maxRev s' = maxRev s + 1 \<and> keeps (code s) (code s') (maxRev s + 1)
     \<and> (lines_le (code s) (maxRev s) \<longrightarrow> lines_le (code s') (maxRev s + 1))"
proof -
  let ?la = "splitLines (content s)"
  let ?lb = "splitLines X"
  let ?blks = "diffLines d (content s) X"
  let ?r = "maxRev s + 1"
  let ?ts = "case ts of None \<Rightarrow> now | Some t \<Rightarrow> if t = 0 then now else t"
  define s2 where "s2 = s\<lparr>tsMap := (tsMap s)(?r \<mapsto> ?ts)\<rparr>"
  define s3 where "s3 = (case ex of None \<Rightarrow> s2 | Some e \<Rightarrow> s2\<lparr>extraMap := (extraMap s2)(?r \<mapsto> e)\<rparr>)"
  have s3: "code s3 = code s" "lines s3 = lines s" "maxRev s3 = maxRev s" "content s3 = content s"
    by (simp_all add: s3_def s2_def split: option.split)
  from inv obtain ps rk where wf: "wf_code (code s) rk" and jl: "jumps_le (code s) (maxRev s)"
    and un: "union_ok (code s)" and m0: "0 \<le> maxRev s"
    and ru: "runs (code s) (maxRev s) (maxRev s) 0 ps" and ls: "lines s = lines_of (code s) ps"
    and lc: "lastCheckoutRev s = maxRev s"
    and dat: "map data (butlast (lines s)) = ?la"
    by (auto simp: inv_def code_ok_def)
  have co: "checkOut (maxRev s) None s = Inr s" using lc by (simp add: checkOut_def)
  have jl': "jumps_le (code s) ?r" using jl by (auto simp: jumps_le_def)
  have "same_tests (code s) (maxRev s) (maxRev s) ?r ?r"
    using jl by (intro jumps_le_same_tests [where m = "maxRev s"]) simp_all
  from runs_cong [OF ru this] have ru': "runs (code s) ?r ?r 0 ps" .
  have li: "loop_inv ?r (take (length ?la) ?la @ drop (length ?lb) ?lb) s3"
    unfolding loop_inv_def using wf jl' un ru' ls dat by (auto simp: s3)
  from editChunks_loop [OF rm li] m0
  obtain s4 where s4: "editChunks (rev ?blks) ?r ?lb s3 = Inr s4" and li4: "loop_inv ?r ?lb s4"
    and n4: "rev ?blks \<noteq> [] \<longrightarrow> maxRev s4 = (if ?r > maxRev s3 then ?r else maxRev s3)
          \<and> lastCheckoutRev s4 = ?r \<and> (\<exists>i \<in> set (code s4). jump_rev i = ?r)"
    and kp4: "keeps (code s3) (code s4) ?r"
    and ll4: "lines_le (code s3) ?r \<longrightarrow> lines_le (code s4) ?r"
    by auto
  have "rev ?blks \<noteq> []"
  proof
    assume "rev ?blks = []"
    with rm have "?la = ?lb" by simp
    then have "content s = X" by (rule splitLines_inj)
    with ne show False by simp
  qed
  with n4 have m4: "maxRev s4 = ?r" "lastCheckoutRev s4 = ?r" "\<exists>i \<in> set (code s4). jump_rev i = ?r"
    by (simp_all add: s3)
  let ?s' = "s4\<lparr>content := X\<rparr>"
  have rt: "recordText d X ts ex now s = Inr (?r, ?s')"
  proof (cases ex)
    case None
    with s4 have "editChunks (rev ?blks) ?r ?lb (s\<lparr>tsMap := (tsMap s)(?r \<mapsto> ?ts)\<rparr>) = Inr s4"
      by (simp add: s3_def s2_def)
    with None ne co tc show ?thesis by (simp add: recordText_def Let_def)
  next
    case (Some e)
    with s4 have "editChunks (rev ?blks) ?r ?lb
        (s\<lparr>tsMap := (tsMap s)(?r \<mapsto> ?ts), extraMap := (extraMap s)(?r \<mapsto> e)\<rparr>) = Inr s4"
      by (simp add: s3_def s2_def)
    with Some ne co tc show ?thesis by (simp add: recordText_def Let_def)
  qed
  from li4 obtain rk4 ps4 where wf4: "wf_code (code s4) rk4" and jl4: "jumps_le (code s4) ?r"
    and un4: "union_ok (code s4)" and ru4: "runs (code s4) ?r ?r 0 ps4"
    and ls4: "lines s4 = lines_of (code s4) ps4" and dat4: "map data (butlast (lines s4)) = ?lb"
    by (auto simp: loop_inv_def)
  have "code_ok (code ?s') (maxRev ?s')"
    unfolding code_ok_def using wf4 jl4 un4 m4 m0 by auto
  moreover have "\<exists>ps. runs (code ?s') (maxRev ?s') (maxRev ?s') 0 ps \<and> lines ?s' = lines_of (code ?s') ps"
    using ru4 ls4 m4 by auto
  moreover have "maxRev ?s' \<noteq> 0" using m4 m0 by simp
  ultimately have "inv ?s'" unfolding inv_def using m4 dat4 by simp
  moreover have "keeps (code s) (code ?s') ?r" using kp4 by (simp add: s3)
  moreover have "lines_le (code s) (maxRev s) \<longrightarrow> lines_le (code ?s') ?r"
    using ll4 lines_le_mono [of "code s" "maxRev s" ?r] by (simp add: s3)
  ultimately show ?thesis using rt m4 by (intro exI [of _ ?s']) simp
qed

lemma recordText_trivial:
  assumes inv: "inv s" and ne: "content s \<noteq> X"
    and blks: "diffLines d (content s) X = [(a1, a1 + 1, b1, b1 + 1)]"
    and tc: "trivial_cond (diffLines d (content s) X) s = Inr True"
    and ab: "a1 < length (splitLines (content s))" "b1 < length (splitLines X)"
    and upd: "(splitLines (content s))[a1 := splitLines X ! b1] = splitLines X"
  shows "\<exists>s'. recordText d X ts ex now s = Inr (maxRev s, s') \<and> inv s' \<and> maxRev s' = maxRev s
     \<and> (\<exists>p ld x. p < length (code s) \<and> code s ! p = LINE (maxRev s) ld
           \<and> code s' = (code s)[p := LINE (maxRev s) x])"
proof -
  let ?la = "splitLines (content s)"
  let ?lb = "splitLines X"
  let ?ts = "case ts of None \<Rightarrow> now | Some t \<Rightarrow> if t = 0 then now else t"
  from inv obtain ps rk where ok: "code_ok (code s) (maxRev s)" and wf: "wf_code (code s) rk"
    and ru: "runs (code s) (maxRev s) (maxRev s) 0 ps" and ls: "lines s = lines_of (code s) ps"
    and lc: "lastCheckoutRev s = maxRev s"
    and dat: "map data (butlast (lines s)) = ?la"
    and fr: "maxRev s = 0 \<longrightarrow> s = fresh"
    by (auto simp: inv_def code_ok_def)
  have co: "checkOut (maxRev s) None s = Inr s" using lc by (simp add: checkOut_def)
  have "length (map data (butlast (lines s))) = length ?la" using dat by simp
  then have len: "length ps = length ?la + 1" using ls runs_nonempty [OF ru] by (cases ps) auto
  then have a1: "Suc a1 < length ps" using ab by simp
  let ?p = "ps ! a1"
  from runs_line_index [OF ru a1] obtain lr ld where l: "code s ! ?p = LINE lr ld" by blast
  have pl: "?p < length (code s)" using runs_emits [OF ru, of ?p] a1 by simp
  have pa: "pc (lines s ! a1) = ?p" using a1 ls by simp
  let ?s' = "s\<lparr>tsMap := (tsMap s)(maxRev s \<mapsto> ?ts), code := (code s)[?p := LINE lr (?lb ! b1)],
               lines := (lines s)[a1 := (lines s ! a1)\<lparr>data := ?lb ! b1\<rparr>], content := X\<rparr>"
  have rt: "recordText d X ts ex now s = Inr (maxRev s, ?s')"
    using ne co tc blks ab pa pl l by (simp add: recordText_def Let_def)
  have "code_ok (code ?s') (maxRev ?s')" using code_ok_set_data [OF ok l pl] by simp
  moreover have "runs (code ?s') (maxRev ?s') (maxRev ?s') 0 ps"
    using runs_set_data [OF l ru] by simp
  moreover have "lines ?s' = lines_of (code ?s') ps"
    using lines_set_data [OF wf ru _ l, of "?lb ! b1"] a1 ls by simp
  moreover have "map data (butlast (lines ?s')) = splitLines (content ?s')"
  proof -
    have "map data (butlast ((lines s)[a1 := (lines s ! a1)\<lparr>data := ?lb ! b1\<rparr>]))
        = (map data (butlast (lines s)))[a1 := ?lb ! b1]"
    proof -
      have "a1 \<noteq> length (lines s) - 1" using a1 ls by (simp add: lines_of_def)
      then show ?thesis by (simp add: butlast_list_update map_update)
    qed
    then show ?thesis using dat upd by simp
  qed
  moreover have "maxRev ?s' \<noteq> 0"
  proof
    assume "maxRev ?s' = 0"
    with fr have "s = fresh" by simp
    then have "content s = []" by (simp add: fresh_def)
    with ab(1) show False by (simp add: splitLines.simps)
  qed
  ultimately have "inv ?s'" unfolding inv_def using lc by auto
  moreover have "lr = maxRev s"
  proof -
    have "a1 < length (lines s)" using a1 ls by simp
    with tc blks have "lrev (lines s ! a1) = maxRev s" by (simp add: trivial_cond_def)
    moreover have "lrev (lines s ! a1) = lr" using a1 ls l by (simp add: lines_of_def line_at_def)
    ultimately show ?thesis by simp
  qed
  then have "\<exists>p ld x. p < length (code s) \<and> code s ! p = LINE (maxRev s) ld
           \<and> code ?s' = (code s)[p := LINE (maxRev s) x]"
    using pl l by auto
  ultimately show ?thesis using rt by (intro exI [of _ ?s']) simp
qed

lemma recordText_inv:
  assumes inv: "inv s" and d: "dmp_ok d"
  shows "\<exists>r s'. recordText d X ts ex now s = Inr (r, s') \<and> inv s'"
proof (cases "content s = X")
  case True
  then show ?thesis using inv by (simp add: recordText_def)
next
  case False
  let ?la = "splitLines (content s)"
  let ?lb = "splitLines X"
  have "script_ok (d (content s) X) ?la ?lb" using d by (simp add: dmp_ok_def)
  then have rm: "rmatch (rev (diffLines d (content s) X)) ?la ?lb (length ?la) (length ?lb)"
    by (rule diffLines_rmatch)
  from inv obtain ps where ru: "runs (code s) (maxRev s) (maxRev s) 0 ps"
    and ls: "lines s = lines_of (code s) ps" and dat: "map data (butlast (lines s)) = ?la"
    by (auto simp: inv_def)
  have "length (map data (butlast (lines s))) = length ?la" using dat by simp
  then have len: "length (lines s) = length ?la + 1" using ls runs_nonempty [OF ru] by (cases ps) auto
  from trivial_cond_cases [OF rm len] show ?thesis
  proof (elim disjE conjE exE)
    assume "trivial_cond (diffLines d (content s) X) s = Inr False"
    from recordText_general [OF inv False rm this] show ?thesis by blast
  next
    fix a1 b1
    assume "trivial_cond (diffLines d (content s) X) s = Inr True"
      "diffLines d (content s) X = [(a1, a1 + 1, b1, b1 + 1)]"
      "a1 < length ?la" "b1 < length ?lb" "?la[a1 := ?lb ! b1] = ?lb"
    from recordText_trivial [OF inv False this(2,1,3,4,5)] show ?thesis by blast
  qed
qed

section \<open>Sequences of calls\<close>

lemma apply_ops_append:
  "apply_ops d (xs @ ys) s = (case apply_ops d xs s of Inl e \<Rightarrow> Inl e | Inr s' \<Rightarrow> apply_ops d ys s')"
  by (induction xs arbitrary: s) (auto split: sum.splits)

lemma records_inv:
  "inv s \<Longrightarrow> dmp_ok d \<Longrightarrow> list_all is_record ops \<Longrightarrow> \<exists>s'. apply_ops d ops s = Inr s' \<and> inv s'"
proof (induction ops arbitrary: s)
  case Nil
  then show ?case by simp
next
  case (Cons x xs)
  from Cons.prems(3) obtain X ts ex now where x: "x = RecordText X ts ex now"
    by (cases x) auto
  from recordText_inv [OF Cons.prems(1,2)] obtain r s1
    where s1: "recordText d X ts ex now s = Inr (r, s1)" "inv s1" by blast
  from Cons.IH [OF s1(2) Cons.prems(2)] Cons.prems(3) obtain s' where "apply_ops d xs s1 = Inr s'" "inv s'"
    by auto
  with x s1 show ?case by simp
qed

lemma execute_total:
  assumes "wf_code (code s) rk" "code s \<noteq> []"
  shows "\<exists>ps. runs (code s) sr er 0 ps
     \<and> execute s sr er present = Inr (map (line_at (code s) (deleted_fn present)) ps)"
proof -
  from assms(2) have "0 < length (code s)" by simp
  from runs_total [OF assms(1) this] obtain ps where ps: "runs (code s) sr er 0 ps" by blast
  from execute_runs [OF ps assms(1)] ps show ?thesis by blast
qed

lemma checkOut_total:
  assumes "wf_code (code s) rk" "code s \<noteq> []"
  shows "\<exists>s'. checkOut r st s = Inr s'"
proof -
  let ?m = "min r (maxRev s)"
  let ?s1 = "s\<lparr>lastCheckoutRev := ?m\<rparr>"
  have wf: "wf_code (code ?s1) rk" "code ?s1 \<noteq> []" using assms by simp_all
  from execute_total [OF wf] obtain ls where ls: "execute ?s1 ?m ?m None = Inr ls" by blast
  show ?thesis
  proof (cases st)
    case None
    with ls show ?thesis by (simp add: checkOut_def Let_def)
  next
    case (Some a)
    from execute_total [OF wf] obtain ls' where "execute ?s1 a ?m (Some (pc ` set ls)) = Inr ls'"
      by blast
    with Some ls show ?thesis by (simp add: checkOut_def Let_def)
  qed
qed

lemma checkouts_total:
  "wf_code (code s) rk \<Longrightarrow> code s \<noteq> [] \<Longrightarrow> list_all is_checkout cos \<Longrightarrow>
   \<exists>s'. apply_ops d cos s = Inr s' \<and> code s' = code s \<and> tsMap s' = tsMap s
     \<and> extraMap s' = extraMap s \<and> maxRev s' = maxRev s"
proof (induction cos arbitrary: s)
  case Nil
  then show ?case by simp
next
  case (Cons x xs)
  from Cons.prems(3) obtain r st where x: "x = CheckOut r st" by (cases x) auto
  from checkOut_total [OF Cons.prems(1,2)] obtain s1 where s1: "checkOut r st s = Inr s1" by blast
  note f = checkOut_fields [OF s1]
  have "wf_code (code s1) rk" "code s1 \<noteq> []" using Cons.prems(1,2) f by simp_all
  from Cons.IH [OF this] Cons.prems(3) obtain s' where "apply_ops d xs s1 = Inr s'"
    "code s' = code s1" "tsMap s' = tsMap s1" "extraMap s' = extraMap s1" "maxRev s' = maxRev s1"
    by auto
  with x s1 f show ?case by simp
qed

lemma inv_code_ne: "inv s \<Longrightarrow> code s \<noteq> []"
  using runs_in_range by (fastforce simp: inv_def)

lemma built_state:
  assumes "dmp_ok d" "list_all is_record recs" "list_all is_checkout cos"
  shows "\<exists>s0 s. apply_ops d recs fresh = Inr s0 \<and> inv s0 \<and> apply_ops d (recs @ cos) fresh = Inr s
     \<and> code s = code s0 \<and> tsMap s = tsMap s0 \<and> extraMap s = extraMap s0 \<and> maxRev s = maxRev s0"
proof -
  from records_inv [OF inv_fresh assms(1,2)] obtain s0
    where s0: "apply_ops d recs fresh = Inr s0" "inv s0" by blast
  from s0(2) obtain rk where wf: "wf_code (code s0) rk" by (auto simp: inv_def code_ok_def)
  from checkouts_total [OF wf inv_code_ne [OF s0(2)] assms(3)] obtain s
    where "apply_ops d cos s0 = Inr s" "code s = code s0" "tsMap s = tsMap s0"
      "extraMap s = extraMap s0" "maxRev s = maxRev s0" by blast
  with s0 show ?thesis by (simp add: apply_ops_append)
qed

section \<open>The concrete diff and the recomputed maxRev\<close>

lemma common_prefix_le: "common_prefix xs ys \<le> length xs" "common_prefix xs ys \<le> length ys"
proof -
  have "length (takeWhile (\<lambda>(x, y). x = y) (zip xs ys)) \<le> length (zip xs ys)"
    by (rule length_takeWhile_le)
  then show "common_prefix xs ys \<le> length xs" "common_prefix xs ys \<le> length ys"
    by (simp_all add: common_prefix_def)
qed

lemma common_prefix_take:
  "take (common_prefix xs ys) xs = take (common_prefix xs ys) ys"
proof (induction xs arbitrary: ys)
  case Nil
  then show ?case by (simp add: common_prefix_def)
next
  case (Cons x xs)
  show ?case
  proof (cases ys)
    case Nil
    then show ?thesis by (simp add: common_prefix_def)
  next
    case (Cons y ys')
    with Cons.IH [of ys'] show ?thesis by (simp add: common_prefix_def)
  qed
qed

lemma common_suffix_drop:
  assumes "q = common_prefix (rev xs) (rev ys)"
  shows "drop (length xs - q) xs = drop (length ys - q) ys"
proof -
  have "take q (rev xs) = take q (rev ys)" unfolding assms by (rule common_prefix_take)
  then have "rev (take q (rev xs)) = rev (take q (rev ys))" by simp
  then show ?thesis by (simp add: rev_take)
qed

lemma script_ok_tail:
  assumes "x = y" "length x = q"
  shows "script_ok (if q > 0 then [(0, q)] else []) x y"
  using assms by auto

lemma script_ok_ins:
  assumes "il \<le> length y" "script_ok ds x (drop il y)"
  shows "script_ok ((if il > 0 then [(1, il)] else []) @ ds) x y"
  using assms by auto

lemma script_ok_del:
  assumes "dl \<le> length x" "script_ok ds (drop dl x) y"
  shows "script_ok ((if dl > 0 then [(-1, dl)] else []) @ ds) x y"
  using assms by auto

lemma script_ok_eq:
  assumes "p \<le> length x" "p \<le> length y" "take p x = take p y" "script_ok ds (drop p x) (drop p y)"
  shows "script_ok ((if p > 0 then [(0, p)] else []) @ ds) x y"
  using assms by auto

lemma simple_dmp_ok: "dmp_ok simple_dmp"
  unfolding dmp_ok_def
proof (intro allI)
  fix a b
  let ?la = "splitLines a" and ?lb = "splitLines b"
  define p where "p = common_prefix ?la ?lb"
  define la' where "la' = drop p ?la"
  define lb' where "lb' = drop p ?lb"
  define q where "q = common_prefix (rev la') (rev lb')"
  define dl where "dl = length la' - q"
  define il where "il = length lb' - q"
  have q: "q \<le> length la'" "q \<le> length lb'"
    using common_prefix_le [of "rev la'" "rev lb'"] by (simp_all add: q_def)
  have sfx: "drop dl la' = drop il lb'" unfolding dl_def il_def using q_def by (rule common_suffix_drop)
  have "length (drop dl la') = q" using q by (simp add: dl_def)
  from script_ok_tail [OF sfx this]
  have "script_ok (if q > 0 then [(0, q)] else []) (drop dl la') (drop il lb')" .
  from script_ok_ins [OF _ this] have "script_ok ((if il > 0 then [(1, il)] else [])
      @ (if q > 0 then [(0, q)] else [])) (drop dl la') lb'" by (simp add: il_def)
  from script_ok_del [OF _ this] have "script_ok ((if dl > 0 then [(-1, dl)] else [])
      @ (if il > 0 then [(1, il)] else []) @ (if q > 0 then [(0, q)] else [])) la' lb'"
    by (simp add: dl_def)
  then have "script_ok ((if dl > 0 then [(-1, dl)] else [])
      @ (if il > 0 then [(1, il)] else []) @ (if q > 0 then [(0, q)] else [])) (drop p ?la) (drop p ?lb)"
    by (simp add: la'_def lb'_def)
  from script_ok_eq [OF _ _ _ this] common_prefix_le [of ?la ?lb] common_prefix_take [of ?la ?lb]
  have "script_ok ((if p > 0 then [(0, p)] else []) @ (if dl > 0 then [(-1, dl)] else [])
      @ (if il > 0 then [(1, il)] else []) @ (if q > 0 then [(0, q)] else [])) ?la ?lb"
    by (simp add: p_def)
  moreover have "simple_dmp a b = (if p > 0 then [(0, p)] else []) @ (if dl > 0 then [(-1, dl)] else [])
      @ (if il > 0 then [(1, il)] else []) @ (if q > 0 then [(0, q)] else [])"
    unfolding simple_dmp_def Let_def p_def la'_def lb'_def q_def dl_def il_def by (rule refl)
  ultimately show "script_ok (simple_dmp a b) ?la ?lb" by simp
qed

lemma foldl_max_Max: "foldl max (a :: int) xs = Max (insert a (set xs))"
proof (induction xs arbitrary: a)
  case Nil
  then show ?case by simp
next
  case (Cons x xs)
  have "Max (insert a (insert x (set xs))) = max a (Max (insert x (set xs)))"
    by (rule Max_insert) simp_all
  also have "\<dots> = Max (insert (max a x) (set xs))"
    by (cases "set xs = {}") (simp_all add: max.assoc)
  finally show ?case using Cons.IH [of "max a x"] by simp
qed

lemma jump_rev_set:
  "insert 0 (jump_rev ` set c) = insert 0 {r. \<exists>t. JGE r t \<in> set c \<or> JL r t \<in> set c}"
proof (intro set_eqI iffI)
  fix x
  assume "x \<in> insert 0 (jump_rev ` set c)"
  then consider "x = 0" | i where "i \<in> set c" "x = jump_rev i" by auto
  then show "x \<in> insert 0 {r. \<exists>t. JGE r t \<in> set c \<or> JL r t \<in> set c}"
  proof cases
    case 1
    then show ?thesis by simp
  next
    case 2
    show ?thesis using 2 by (auto simp: jump_rev_def split: instr.splits)
  qed
next
  fix x
  assume "x \<in> insert 0 {r. \<exists>t. JGE r t \<in> set c \<or> JL r t \<in> set c}"
  then consider "x = 0" | t where "JGE x t \<in> set c" | t where "JL x t \<in> set c" by auto
  then show "x \<in> insert 0 (jump_rev ` set c)"
  proof cases
    case 1
    then show ?thesis by simp
  next
    case 2
    then have "jump_rev (JGE x t) \<in> jump_rev ` set c" by (rule imageI)
    then show ?thesis by (simp add: jump_rev_def)
  next
    case 3
    then have "jump_rev (JL x t) \<in> jump_rev ` set c" by (rule imageI)
    then show ?thesis by (simp add: jump_rev_def)
  qed
qed

lemma import_maxRev_Max:
  "import_maxRev c = Max (insert 0 {r. \<exists>t. JGE r t \<in> set c \<or> JL r t \<in> set c})"
  by (simp add: import_maxRev_def foldl_max_Max jump_rev_set)

lemma import_maxRev_code_ok:
  assumes "code_ok c m"
  shows "import_maxRev c = m"
proof -
  from assms have le: "\<forall>i \<in> set c. jump_rev i \<le> m" and m0: "0 \<le> m"
    and at: "m = 0 \<or> (\<exists>i \<in> set c. jump_rev i = m)"
    by (simp_all add: code_ok_def jumps_le_def)
  have "Max (insert 0 (jump_rev ` set c)) = m"
  proof (rule Max_eqI)
    show "finite (insert 0 (jump_rev ` set c))" by simp
    show "\<And>y. y \<in> insert 0 (jump_rev ` set c) \<Longrightarrow> y \<le> m" using le m0 by auto
    show "m \<in> insert 0 (jump_rev ` set c)" using at by auto
  qed
  then show ?thesis by (simp add: import_maxRev_def foldl_max_Max)
qed

section \<open>Snapshots, range views and import\<close>

lemma deleted_line_at [simp]: "deleted (line_at c del p) = del p"
  by (simp add: line_at_def split: instr.splits)

lemma data_line_at: "data (line_at c del p) = data (line_at c del' p)"
  by (simp add: line_at_def split: instr.splits)

lemma checkOut_snapshot:
  assumes "wf_code (code s) rk" "runs (code s) r r 0 ps" "r = min r0 (maxRev s)"
    "lastCheckoutRev s \<noteq> r"
  shows "checkOut r0 None s = Inr (s\<lparr>lastCheckoutRev := r, lines := lines_of (code s) ps,
     content := concat (map data (lines_of (code s) ps))\<rparr>)"
proof -
  let ?s1 = "s\<lparr>lastCheckoutRev := r\<rparr>"
  have "execute ?s1 r r None = Inr (map (line_at (code ?s1) (deleted_fn None)) ps)"
    by (rule execute_runs [where rk = rk]) (simp_all add: assms(1,2))
  then have "execute ?s1 r r None = Inr (lines_of (code s) ps)"
    by (simp add: lines_of_def deleted_fn_def)
  then show ?thesis using assms(3,4) by (simp add: checkOut_def Let_def reconstructContent_def)
qed

lemma checkOut_union:
  assumes "wf_code (code s) rk" "runs (code s) r r 0 ps" "runs (code s) st r 0 qs"
    "r = min r0 (maxRev s)"
  shows "checkOut r0 (Some st) s = Inr (s\<lparr>lastCheckoutRev := r,
     lines := map (line_at (code s) (\<lambda>p. p \<notin> set ps)) qs,
     content := concat (map data (map (line_at (code s) (\<lambda>p. p \<notin> set ps)) qs))\<rparr>)"
proof -
  let ?s1 = "s\<lparr>lastCheckoutRev := r\<rparr>"
  have "execute ?s1 r r None = Inr (map (line_at (code ?s1) (deleted_fn None)) ps)"
    by (rule execute_runs [where rk = rk]) (simp_all add: assms(1,2))
  then have e1: "execute ?s1 r r None = Inr (lines_of (code s) ps)"
    by (simp add: lines_of_def deleted_fn_def)
  have pcs: "pc ` set (lines_of (code s) ps) = set ps"
    by (simp add: lines_of_def image_image)
  have "execute ?s1 st r (Some (set ps)) = Inr (map (line_at (code ?s1) (deleted_fn (Some (set ps)))) qs)"
    by (rule execute_runs [where rk = rk]) (simp_all add: assms(1,3))
  then have e2: "execute ?s1 st r (Some (set ps)) = Inr (map (line_at (code s) (\<lambda>p. p \<notin> set ps)) qs)"
    by (simp add: deleted_fn_def)
  show ?thesis using assms(4) e1 e2 pcs by (simp add: checkOut_def Let_def reconstructContent_def)
qed

lemma union_filter:
  assumes "wf_code c rk" "union_ok c" "st \<le> r" "runs c r r 0 ps" "runs c st r 0 qs"
  shows "map data (filter (\<lambda>l. \<not> deleted l) (map (line_at c (\<lambda>p. p \<notin> set ps)) qs))
       = map data (lines_of c ps)"
proof -
  from assms(2,3,4,5) have "subseq ps qs" unfolding union_ok_def by blast
  from subseq_distinct_filter [OF this runs_distinct [OF assms(5,1)]]
  have f: "filter (\<lambda>q. q \<in> set ps) qs = ps" .
  have "filter (\<lambda>l. \<not> deleted l) (map (line_at c (\<lambda>p. p \<notin> set ps)) qs)
      = map (line_at c (\<lambda>p. p \<notin> set ps)) (filter (\<lambda>q. q \<in> set ps) qs)"
    by (simp add: filter_map o_def)
  with f have "filter (\<lambda>l. \<not> deleted l) (map (line_at c (\<lambda>p. p \<notin> set ps)) qs)
      = map (line_at c (\<lambda>p. p \<notin> set ps)) ps" by simp
  moreover have "map data (map (line_at c (\<lambda>p. p \<notin> set ps)) ps) = map data (lines_of c ps)"
    unfolding lines_of_def map_map o_def
    by (rule map_cong [OF refl]) (rule data_line_at)
  ultimately show ?thesis by simp
qed

lemma inv_content:
  assumes "inv s"
  shows "concat (map data (lines s)) = content s"
proof -
  from assms obtain ps where ru: "runs (code s) (maxRev s) (maxRev s) 0 ps"
    and ls: "lines s = lines_of (code s) ps"
    and dat: "map data (butlast (lines s)) = splitLines (content s)"
    by (auto simp: inv_def)
  have ne: "lines s \<noteq> []" using ls runs_nonempty [OF ru] by (simp add: lines_of_def)
  have "last (lines s) = line_at (code s) (\<lambda>p. False) (last ps)"
    using ls runs_nonempty [OF ru] by (simp add: lines_of_def last_map)
  then have "data (last (lines s)) = []"
    using runs_last_end [OF ru] by (simp add: line_at_def)
  moreover have "lines s = butlast (lines s) @ [last (lines s)]" using ne by simp
  then have "map data (lines s) = map data (butlast (lines s)) @ [data (last (lines s))]"
    by (metis list.simps(8,9) map_append)
  ultimately have "concat (map data (lines s)) = concat (splitLines (content s))"
    using dat by simp
  then show ?thesis by (simp add: concat_splitLines)
qed

lemma import_export:
  assumes "inv s0" "code s = code s0" "tsMap s = tsMap s0" "extraMap s = extraMap s0"
  shows "import (export s) fresh = Inr s0"
proof -
  from assms(1) obtain ps rk where ok: "code_ok (code s0) (maxRev s0)"
    and wf: "wf_code (code s0) rk"
    and ru: "runs (code s0) (maxRev s0) (maxRev s0) 0 ps"
    and ls: "lines s0 = lines_of (code s0) ps"
    and lc: "lastCheckoutRev s0 = maxRev s0"
    and fr: "maxRev s0 = 0 \<longrightarrow> s0 = fresh"
    by (auto simp: inv_def code_ok_def)
  have m: "import_maxRev (code s0) = maxRev s0" using ok by (rule import_maxRev_code_ok)
  let ?s2 = "fresh\<lparr>code := code s0, tsMap := tsMap s0, extraMap := extraMap s0, maxRev := maxRev s0\<rparr>"
  have imp: "import (export s) fresh = checkOut (maxRev s0) None ?s2"
    using assms(2-4) m by (simp add: import_def export_def Let_def)
  show ?thesis
  proof (cases "maxRev s0 = 0")
    case True
    with fr have "s0 = fresh" by simp
    then have "?s2 = s0" by (simp add: fresh_def)
    moreover have "checkOut 0 None ?s2 = Inr ?s2" using True by (simp add: checkOut_def fresh_def)
    ultimately show ?thesis using imp True by simp
  next
    case False
    have "checkOut (maxRev s0) None ?s2 = Inr (?s2\<lparr>lastCheckoutRev := maxRev s0,
        lines := lines_of (code ?s2) ps, content := concat (map data (lines_of (code ?s2) ps))\<rparr>)"
      by (rule checkOut_snapshot [where rk = rk]) (use wf ru False in \<open>simp_all add: fresh_def\<close>)
    moreover have "?s2\<lparr>lastCheckoutRev := maxRev s0,
        lines := lines_of (code ?s2) ps, content := concat (map data (lines_of (code ?s2) ps))\<rparr> = s0"
      using ls lc inv_content [OF assms(1)] by (simp add: fresh_def)
    ultimately show ?thesis using imp by simp
  qed
qed

lemma checkOut_agree:
  assumes "inv w" "code s = code w" "maxRev s = maxRev w"
    "lastCheckoutRev s \<noteq> min r (maxRev s) \<or> st \<noteq> None"
  shows "\<exists>s' w'. checkOut r st s = Inr s' \<and> checkOut r st w = Inr w'
     \<and> lines w' = lines s' \<and> content w' = content s'"
proof -
  let ?m = "min r (maxRev w)"
  from assms(1) obtain ps rk where wf: "wf_code (code w) rk"
    and ru: "runs (code w) (maxRev w) (maxRev w) 0 ps"
    and ls: "lines w = lines_of (code w) ps"
    and lc: "lastCheckoutRev w = maxRev w"
    by (auto simp: inv_def code_ok_def)
  have ne: "0 < length (code w)" using runs_in_range [OF ru] .
  from runs_total [OF wf ne] obtain xs where xs: "runs (code w) ?m ?m 0 xs" by blast
  show ?thesis
  proof (cases st)
    case (Some a)
    from runs_total [OF wf ne] obtain qs where qs: "runs (code w) a ?m 0 qs" by blast
    have "checkOut r (Some a) w = Inr (w\<lparr>lastCheckoutRev := ?m,
       lines := map (line_at (code w) (\<lambda>p. p \<notin> set xs)) qs,
       content := concat (map data (map (line_at (code w) (\<lambda>p. p \<notin> set xs)) qs))\<rparr>)"
      by (rule checkOut_union [OF wf xs qs refl])
    moreover have "checkOut r (Some a) s = Inr (s\<lparr>lastCheckoutRev := ?m,
       lines := map (line_at (code s) (\<lambda>p. p \<notin> set xs)) qs,
       content := concat (map data (map (line_at (code s) (\<lambda>p. p \<notin> set xs)) qs))\<rparr>)"
      by (rule checkOut_union [where rk = rk]) (use wf xs qs assms(2,3) in simp_all)
    ultimately show ?thesis using Some assms(2) by simp
  next
    case None
    with assms(4) have "lastCheckoutRev s \<noteq> ?m" using assms(3) by simp
    then have cs: "checkOut r None s = Inr (s\<lparr>lastCheckoutRev := ?m, lines := lines_of (code s) xs,
       content := concat (map data (lines_of (code s) xs))\<rparr>)"
      by (intro checkOut_snapshot [where rk = rk]) (use wf xs assms(2,3) in simp_all)
    show ?thesis
    proof (cases "lastCheckoutRev w = ?m")
      case True
      then have cw: "checkOut r None w = Inr w" by (simp add: checkOut_def)
      from True lc have "?m = maxRev w" by simp
      with xs ru have "xs = ps" using runs_det by simp
      with cs cw ls inv_content [OF assms(1)] None assms(2) show ?thesis by simp
    next
      case False
      then have "checkOut r None w = Inr (w\<lparr>lastCheckoutRev := ?m, lines := lines_of (code w) xs,
         content := concat (map data (lines_of (code w) xs))\<rparr>)"
        by (intro checkOut_snapshot [where rk = rk]) (use wf xs in simp_all)
      with cs None assms(2) show ?thesis by simp
    qed
  qed
qed

lemma s_zero_reached:
  "apply_ops simple_dmp
     ([RecordText ''a\<newline>'' (Some 42) (Some [(''author'', ''A'')]) 7] @ [CheckOut 0 None]) fresh
   = Inr s_zero"
proof -
  have "checkOut 0 None s_one = Inr s_zero"
    by (simp add: checkOut_def s_one_def s_zero_def execute_def deleted_fn_def
        reconstructContent_def eval_nat_numeral)
  then show ?thesis by (simp add: s_one_reached)
qed

lemma built_code_ok:
  assumes "dmp_ok d" "list_all is_record recs" "list_all is_checkout cos"
    "apply_ops d (recs @ cos) fresh = Inr s"
  shows "\<exists>s0. apply_ops d recs fresh = Inr s0 \<and> inv s0
     \<and> code s = code s0 \<and> tsMap s = tsMap s0 \<and> extraMap s = extraMap s0 \<and> maxRev s = maxRev s0"
  using built_state [OF assms(1-3)] assms(4) by auto

section \<open>The recorded texts\<close>

lemma hinv_fresh: "hinv fresh Map.empty"
proof -
  have "lines_le [END] 0" by (simp add: lines_le_def line_of_def)
  moreover have "snap_ok [END]" by (simp add: snap_ok_def runs_END line_of_def)
  moreover have "hist_ok [END] 0 Map.empty" by (simp add: hist_ok_def runs_END line_of_def)
  ultimately show ?thesis using inv_fresh by (simp add: hinv_def fresh_def)
qed

lemma snapshot_content:
  assumes "inv s" "runs (code s) (maxRev s) (maxRev s) 0 ps"
  shows "concat (map (\<lambda>p. fst (line_of (code s ! p))) ps) = content s"
proof -
  from assms(1) obtain ps' where ru: "runs (code s) (maxRev s) (maxRev s) 0 ps'"
    and ls: "lines s = lines_of (code s) ps'" by (auto simp: inv_def)
  from runs_det [OF assms(2) ru] have "ps = ps'" .
  with ls have "map data (lines s) = map (\<lambda>p. fst (line_of (code s ! p))) ps"
    by (simp add: lines_of_def data_line_of)
  with inv_content [OF assms(1)] show ?thesis by simp
qed

lemma recordText_cases:
  assumes inv: "inv s" and d: "dmp_ok d" and ne: "content s \<noteq> X"
  shows "(\<exists>s'. recordText d X ts ex now s = Inr (maxRev s + 1, s') \<and> inv s'
           \<and> maxRev s' = maxRev s + 1 \<and> keeps (code s) (code s') (maxRev s + 1)
           \<and> (lines_le (code s) (maxRev s) \<longrightarrow> lines_le (code s') (maxRev s + 1)))
       \<or> (\<exists>s'. recordText d X ts ex now s = Inr (maxRev s, s') \<and> inv s' \<and> maxRev s' = maxRev s
           \<and> (\<exists>p ld x. p < length (code s) \<and> code s ! p = LINE (maxRev s) ld
                 \<and> code s' = (code s)[p := LINE (maxRev s) x]))"
proof -
  let ?la = "splitLines (content s)"
  let ?lb = "splitLines X"
  have "script_ok (d (content s) X) ?la ?lb" using d by (simp add: dmp_ok_def)
  then have rm: "rmatch (rev (diffLines d (content s) X)) ?la ?lb (length ?la) (length ?lb)"
    by (rule diffLines_rmatch)
  from inv obtain ps where ru: "runs (code s) (maxRev s) (maxRev s) 0 ps"
    and ls: "lines s = lines_of (code s) ps" and dat: "map data (butlast (lines s)) = ?la"
    by (auto simp: inv_def)
  have "length (map data (butlast (lines s))) = length ?la" using dat by simp
  then have len: "length (lines s) = length ?la + 1" using ls runs_nonempty [OF ru] by (cases ps) auto
  from trivial_cond_cases [OF rm len] show ?thesis
  proof (elim disjE conjE exE)
    assume "trivial_cond (diffLines d (content s) X) s = Inr False"
    from recordText_general [OF inv ne rm this] show ?thesis by blast
  next
    fix a1 b1
    assume "trivial_cond (diffLines d (content s) X) s = Inr True"
      "diffLines d (content s) X = [(a1, a1 + 1, b1, b1 + 1)]"
      "a1 < length ?la" "b1 < length ?lb" "?la[a1 := ?lb ! b1] = ?lb"
    from recordText_trivial [OF inv ne this(2,1,3,4,5)] show ?thesis by blast
  qed
qed

lemma hinv_same:
  assumes "hinv s h"
  shows "hinv s (h(maxRev s \<mapsto> content s))"
proof -
  from assms have inv: "inv s" and ho: "hist_ok (code s) (maxRev s) h" by (simp_all add: hinv_def)
  have fr: "maxRev s = 0 \<longrightarrow> content s = []" using inv by (auto simp: inv_def fresh_def)
  have "hist_ok (code s) (maxRev s) (h(maxRev s \<mapsto> content s))"
    unfolding hist_ok_def
  proof (intro conjI allI impI)
    fix k ps
    assume k: "0 \<le> k" "k \<le> maxRev s" and ru: "runs (code s) k k 0 ps"
    show "concat (map (\<lambda>p. fst (line_of (code s ! p))) ps)
        = (case (h(maxRev s \<mapsto> content s)) k of None \<Rightarrow> [] | Some X \<Rightarrow> X)"
    proof (cases "k = maxRev s")
      case True
      with ru snapshot_content [OF inv] show ?thesis by simp
    next
      case False
      with ho k ru show ?thesis by (simp add: hist_ok_def)
    qed
  next
    fix k :: int
    assume "1 \<le> k" "k \<le> maxRev s"
    with ho show "(h(maxRev s \<mapsto> content s)) k \<noteq> None" by (simp add: hist_ok_def)
  next
    show "(h(maxRev s \<mapsto> content s)) 0 = None \<or> (h(maxRev s \<mapsto> content s)) 0 = Some []"
      using ho fr by (simp add: hist_ok_def)
  qed
  with assms show ?thesis by (simp add: hinv_def)
qed

lemma keeps_run:
  assumes kp: "keeps c c' r" and wf: "wf_code c rk" and ne: "0 < length c"
    and k: "k < r" and ru': "runs c' k k 0 ps'"
  shows "\<exists>ps. runs c k k 0 ps \<and> map (\<lambda>p. line_of (c' ! p)) ps' = map (\<lambda>p. line_of (c ! p)) ps"
proof -
  from runs_total [OF wf ne] obtain ps where ps: "runs c k k 0 ps" by blast
  from kp k ps obtain ps'' where 1: "runs c' k k 0 ps''"
    "map (\<lambda>p. line_of (c' ! p)) ps'' = map (\<lambda>p. line_of (c ! p)) ps"
    unfolding keeps_def by blast
  from runs_det [OF ru' 1(1)] 1(2) ps show ?thesis by blast
qed

lemma hinv_general:
  assumes h: "hinv s h" and inv': "inv s'" and m': "maxRev s' = maxRev s + 1"
    and kp: "keeps (code s) (code s') (maxRev s + 1)"
    and ll: "lines_le (code s) (maxRev s) \<longrightarrow> lines_le (code s') (maxRev s + 1)"
    and X: "content s' = X"
  shows "hinv s' (h(maxRev s + 1 \<mapsto> X))"
proof -
  let ?c = "code s" and ?c' = "code s'" and ?m = "maxRev s"
  from h have inv: "inv s" and le: "lines_le ?c ?m" and so: "snap_ok ?c" and ho: "hist_ok ?c ?m h"
    by (simp_all add: hinv_def)
  from inv obtain rk where wf: "wf_code ?c rk" and m0: "0 \<le> ?m" by (auto simp: inv_def code_ok_def)
  have ne: "0 < length ?c" using inv_code_ne [OF inv] by simp
  have le': "lines_le ?c' (?m + 1)" using ll le by simp
  have so': "snap_ok ?c'"
    unfolding snap_ok_def
  proof (intro allI impI ballI)
    fix k ps' p
    assume k: "0 \<le> k" and ru': "runs ?c' k k 0 ps'" and p: "p \<in> set ps'"
    show "snd (line_of (?c' ! p)) \<le> k"
    proof (cases "k < ?m + 1")
      case True
      from keeps_run [OF kp wf ne True ru'] obtain ps where ps: "runs ?c k k 0 ps"
        "map (\<lambda>p. line_of (?c' ! p)) ps' = map (\<lambda>p. line_of (?c ! p)) ps" by blast
      have "line_of (?c' ! p) \<in> set (map (\<lambda>p. line_of (?c' ! p)) ps')" using p by simp
      with ps(2) obtain q where "q \<in> set ps" "line_of (?c' ! p) = line_of (?c ! q)" by auto
      with so k ps(1) show ?thesis by (auto simp: snap_ok_def)
    next
      case False
      have "p < length ?c'" using runs_emits [OF ru' p] by simp
      then have "?c' ! p \<in> set ?c'" by simp
      with le' have "snd (line_of (?c' ! p)) \<le> ?m + 1" by (simp add: lines_le_def)
      with False show ?thesis by simp
    qed
  qed
  have ho': "hist_ok ?c' (?m + 1) (h(?m + 1 \<mapsto> X))"
    unfolding hist_ok_def
  proof (intro conjI allI impI)
    fix k ps'
    assume k: "0 \<le> k" "k \<le> ?m + 1" and ru': "runs ?c' k k 0 ps'"
    show "concat (map (\<lambda>p. fst (line_of (?c' ! p))) ps')
        = (case (h(?m + 1 \<mapsto> X)) k of None \<Rightarrow> [] | Some X \<Rightarrow> X)"
    proof (cases "k = ?m + 1")
      case True
      with ru' m' have "runs ?c' (maxRev s') (maxRev s') 0 ps'" by simp
      from snapshot_content [OF inv' this] X True show ?thesis by simp
    next
      case False
      with k have lt: "k < ?m + 1" by simp
      from keeps_run [OF kp wf ne lt ru'] obtain ps where ps: "runs ?c k k 0 ps"
        "map (\<lambda>p. line_of (?c' ! p)) ps' = map (\<lambda>p. line_of (?c ! p)) ps" by blast
      have "map (\<lambda>p. fst (line_of (?c' ! p))) ps' = map fst (map (\<lambda>p. line_of (?c' ! p)) ps')"
        by simp
      also have "\<dots> = map (\<lambda>p. fst (line_of (?c ! p))) ps" unfolding ps(2) by simp
      finally have "concat (map (\<lambda>p. fst (line_of (?c' ! p))) ps')
          = concat (map (\<lambda>p. fst (line_of (?c ! p))) ps)" by simp
      also have "\<dots> = (case h k of None \<Rightarrow> [] | Some X \<Rightarrow> X)"
        using ho k lt ps(1) by (simp add: hist_ok_def)
      finally show ?thesis using False by simp
    qed
  next
    fix k :: int
    assume "1 \<le> k" "k \<le> ?m + 1"
    with ho show "(h(?m + 1 \<mapsto> X)) k \<noteq> None" by (simp add: hist_ok_def)
  next
    show "(h(?m + 1 \<mapsto> X)) 0 = None \<or> (h(?m + 1 \<mapsto> X)) 0 = Some []"
      using ho m0 by (simp add: hist_ok_def)
  qed
  show ?thesis unfolding hinv_def using inv' le' so' ho' m' by simp
qed

lemma hinv_trivial:
  assumes h: "hinv s h" and inv': "inv s'" and m': "maxRev s' = maxRev s"
    and p: "p < length (code s)" and l: "code s ! p = LINE (maxRev s) ld"
    and c': "code s' = (code s)[p := LINE (maxRev s) x]"
    and X: "content s' = X"
  shows "hinv s' (h(maxRev s \<mapsto> X))"
proof -
  let ?c = "code s" and ?c' = "code s'" and ?m = "maxRev s"
  from h have inv: "inv s" and le: "lines_le ?c ?m" and so: "snap_ok ?c" and ho: "hist_ok ?c ?m h"
    by (simp_all add: hinv_def)
  from inv have m0: "0 \<le> ?m" and fr: "?m = 0 \<longrightarrow> s = fresh" by (auto simp: inv_def code_ok_def)
  have mpos: "?m \<noteq> 0"
  proof
    assume "?m = 0"
    with fr have "?c = [END]" by (simp add: fresh_def)
    with p l show False by simp
  qed
  have old: "runs ?c k k 0 ps" if "runs ?c' k k 0 ps" for k ps
    using runs_unset_data [OF l p] that c' by simp
  have same: "snd (line_of (?c' ! q)) = snd (line_of (?c ! q))" if "q < length ?c" for q
    using that l c' by (cases "q = p") (simp_all add: line_of_def)
  have le': "lines_le ?c' ?m"
  proof -
    have "set ?c' \<subseteq> insert (LINE ?m x) (set ?c)" unfolding c' by (rule set_update_subset_insert)
    then show ?thesis using le by (auto simp: lines_le_def line_of_def)
  qed
  have so': "snap_ok ?c'"
    unfolding snap_ok_def
  proof (intro allI impI ballI)
    fix k ps q
    assume k: "0 \<le> k" and ru': "runs ?c' k k 0 ps" and q: "q \<in> set ps"
    have "q < length ?c" using runs_emits [OF old [OF ru'] q] by simp
    from same [OF this] so k old [OF ru'] q show "snd (line_of (?c' ! q)) \<le> k"
      by (auto simp: snap_ok_def)
  qed
  have ho': "hist_ok ?c' ?m (h(?m \<mapsto> X))"
    unfolding hist_ok_def
  proof (intro conjI allI impI)
    fix k ps
    assume k: "0 \<le> k" "k \<le> ?m" and ru': "runs ?c' k k 0 ps"
    show "concat (map (\<lambda>p. fst (line_of (?c' ! p))) ps)
        = (case (h(?m \<mapsto> X)) k of None \<Rightarrow> [] | Some X \<Rightarrow> X)"
    proof (cases "k = ?m")
      case True
      with ru' m' have "runs ?c' (maxRev s') (maxRev s') 0 ps" by simp
      from snapshot_content [OF inv' this] X True show ?thesis by simp
    next
      case False
      have "p \<notin> set ps"
      proof
        assume "p \<in> set ps"
        with so k(1) old [OF ru'] have "snd (line_of (?c ! p)) \<le> k" by (auto simp: snap_ok_def)
        with l k False show False by (simp add: line_of_def)
      qed
      then have "\<And>q. q \<in> set ps \<Longrightarrow> ?c' ! q = ?c ! q"
        unfolding c' by (metis nth_list_update_neq)
      then have eq: "map (\<lambda>p. fst (line_of (?c' ! p))) ps = map (\<lambda>p. fst (line_of (?c ! p))) ps"
        by simp
      have "concat (map (\<lambda>p. fst (line_of (?c ! p))) ps) = (case h k of None \<Rightarrow> [] | Some X \<Rightarrow> X)"
        using ho k old [OF ru'] by (simp add: hist_ok_def)
      then show ?thesis unfolding eq using False by simp
    qed
  next
    fix k :: int
    assume "1 \<le> k" "k \<le> ?m"
    with ho show "(h(?m \<mapsto> X)) k \<noteq> None" by (simp add: hist_ok_def)
  next
    show "(h(?m \<mapsto> X)) 0 = None \<or> (h(?m \<mapsto> X)) 0 = Some []"
      using ho mpos by (simp add: hist_ok_def)
  qed
  show ?thesis unfolding hinv_def using inv' le' so' ho' m' by simp
qed

lemma recordText_hinv:
  assumes h: "hinv s h" and d: "dmp_ok d"
  shows "\<exists>r s'. recordText d X ts ex now s = Inr (r, s') \<and> hinv s' (h(r \<mapsto> X))"
proof (cases "content s = X")
  case True
  with hinv_same [OF h] show ?thesis by (auto simp: recordText_def)
next
  case False
  from h have inv: "inv s" by (simp add: hinv_def)
  from recordText_cases [OF inv d False, of ts ex now] show ?thesis
  proof (elim disjE exE conjE)
    fix s'
    assume a: "recordText d X ts ex now s = Inr (maxRev s + 1, s')" "inv s'"
      "maxRev s' = maxRev s + 1" "keeps (code s) (code s') (maxRev s + 1)"
      "lines_le (code s) (maxRev s) \<longrightarrow> lines_le (code s') (maxRev s + 1)"
    from hinv_general [OF h a(2,3,4,5) recordText_content [OF a(1)]] a(1) show ?thesis by blast
  next
    fix s' p ld x
    assume a: "recordText d X ts ex now s = Inr (maxRev s, s')" "inv s'"
      "maxRev s' = maxRev s" "p < length (code s)" "code s ! p = LINE (maxRev s) ld"
      "code s' = (code s)[p := LINE (maxRev s) x]"
    from hinv_trivial [OF h a(2,3,4,5,6) recordText_content [OF a(1)]] a(1) show ?thesis by blast
  qed
qed

lemma records_hinv:
  "hinv s h \<Longrightarrow> dmp_ok d \<Longrightarrow> list_all is_record ops \<Longrightarrow>
   \<exists>s'. apply_ops d ops s = Inr s' \<and> hinv s' (record_log d ops s h)"
proof (induction ops arbitrary: s h)
  case Nil
  then show ?case by simp
next
  case (Cons x xs)
  from Cons.prems(3) obtain X ts ex now where x: "x = RecordText X ts ex now"
    by (cases x) auto
  from recordText_hinv [OF Cons.prems(1,2)] obtain r s1
    where s1: "recordText d X ts ex now s = Inr (r, s1)" "hinv s1 (h(r \<mapsto> X))" by blast
  have "list_all is_record xs" using Cons.prems(3) by simp
  from Cons.IH [OF s1(2) Cons.prems(2) this] obtain s'
    where "apply_ops d xs s1 = Inr s'" "hinv s' (record_log d xs s1 (h(r \<mapsto> X)))"
    by blast
  with x s1 show ?case by simp
qed

section \<open>The sentinel\<close>

lemma sentinel_run:
  assumes "runs c sr er p ps"
  shows "sentinel_last (s\<lparr>code := c, lines := map (line_at c del) ps\<rparr>)"
proof -
  have ne: "ps \<noteq> []" using assms by (rule runs_nonempty)
  have e: "c ! last ps = END" using assms by (rule runs_last_end)
  have "last ps \<in> set ps" using ne by simp
  then have lt: "last ps < length c" using runs_emits [OF assms] by simp
  have la: "last (map (line_at c del) ps) = line_at c del (last ps)" using ne by (simp add: last_map)
  have "\<exists>r d. c ! pc l = LINE r d \<and> data l = d \<and> lrev l = r"
    if "l \<in> set (butlast (map (line_at c del) ps))" for l
  proof -
    from that have "l \<in> set (map (line_at c del) (butlast ps))" by (simp add: map_butlast)
    then obtain q where q: "q \<in> set (butlast ps)" "l = line_at c del q" by auto
    from runs_butlast_line [OF assms q(1)] obtain r d where "c ! q = LINE r d" by blast
    with q(2) show ?thesis by (simp add: line_at_def)
  qed
  then show ?thesis using ne e lt la by (simp add: sentinel_last_def line_at_def)
qed

lemma sentinel_inv:
  assumes "inv s"
  shows "sentinel_last s"
proof -
  from assms obtain ps where ru: "runs (code s) (maxRev s) (maxRev s) 0 ps"
    and ls: "lines s = lines_of (code s) ps" by (auto simp: inv_def)
  from sentinel_run [OF ru, where s = s and del = "\<lambda>p. False"] ls show ?thesis
    by (simp add: lines_of_def sentinel_last_def)
qed

lemma sentinel_checkOut:
  assumes wf: "wf_code (code s) rk" and ne: "code s \<noteq> []" and sl: "sentinel_last s"
  shows "\<exists>s'. checkOut r st s = Inr s' \<and> sentinel_last s'"
proof -
  let ?m = "min r (maxRev s)"
  let ?s1 = "s\<lparr>lastCheckoutRev := ?m\<rparr>"
  have wf1: "wf_code (code ?s1) rk" "code ?s1 \<noteq> []" using wf ne by simp_all
  from execute_total [OF wf1, of ?m ?m None] obtain ps where ps: "runs (code s) ?m ?m 0 ps"
    "execute ?s1 ?m ?m None = Inr (map (line_at (code s) (deleted_fn None)) ps)" by auto
  show ?thesis
  proof (cases st)
    case None
    show ?thesis
    proof (cases "?m = lastCheckoutRev s")
      case True
      with None sl show ?thesis by (simp add: checkOut_def)
    next
      case False
      let ?s' = "?s1\<lparr>lines := map (line_at (code s) (deleted_fn None)) ps,
        content := reconstructContent (map (line_at (code s) (deleted_fn None)) ps)\<rparr>"
      have "checkOut r None s = Inr ?s'" using False ps(2) by (simp add: checkOut_def Let_def)
      moreover have "sentinel_last ?s'"
        using sentinel_run [OF ps(1), where s = s and del = "deleted_fn None"] by (simp add: sentinel_last_def)
      ultimately show ?thesis using None by blast
    qed
  next
    case (Some a)
    let ?P = "Some (pc ` set (map (line_at (code s) (deleted_fn None)) ps))"
    from execute_total [OF wf1, of a ?m ?P] obtain qs where qs: "runs (code s) a ?m 0 qs"
      "execute ?s1 a ?m ?P = Inr (map (line_at (code s) (deleted_fn ?P)) qs)" by auto
    let ?s' = "?s1\<lparr>lines := map (line_at (code s) (deleted_fn ?P)) qs,
        content := reconstructContent (map (line_at (code s) (deleted_fn ?P)) qs)\<rparr>"
    have "checkOut r (Some a) s = Inr ?s'" using ps(2) qs(2) by (simp add: checkOut_def Let_def)
    moreover have "sentinel_last ?s'"
      using sentinel_run [OF qs(1), where s = s and del = "deleted_fn ?P"] by (simp add: sentinel_last_def)
    ultimately show ?thesis using Some by blast
  qed
qed

lemma sentinel_checkouts:
  "wf_code (code s) rk \<Longrightarrow> code s \<noteq> [] \<Longrightarrow> sentinel_last s \<Longrightarrow> list_all is_checkout cos \<Longrightarrow>
   \<exists>s'. apply_ops d cos s = Inr s' \<and> sentinel_last s'"
proof (induction cos arbitrary: s)
  case Nil
  then show ?case by simp
next
  case (Cons x xs)
  from Cons.prems(4) obtain r st where x: "x = CheckOut r st" by (cases x) auto
  from sentinel_checkOut [OF Cons.prems(1,2,3)] obtain s1
    where s1: "checkOut r st s = Inr s1" "sentinel_last s1" by blast
  note f = checkOut_fields [OF s1(1)]
  have "wf_code (code s1) rk" "code s1 \<noteq> []" using Cons.prems(1,2) f by simp_all
  moreover have "list_all is_checkout xs" using Cons.prems(4) by simp
  ultimately obtain s' where "apply_ops d xs s1 = Inr s'" "sentinel_last s'"
    using Cons.IH [OF _ _ s1(2)] by blast
  with x s1 show ?case by simp
qed

section \<open>The claims\<close>

text \<open>
  Claim C7. \<open>recordText\<close> with the text that is the current content returns \<open>maxRev\<close> and
  leaves every field as it was (first conjunct, for any state \<open>s0\<close>). Every call that
  returns leaves its text as the content, so a second call with the same text is such a
  call: it returns the \<open>maxRev\<close> the first one left and changes nothing.
\<close>

theorem recordText_same_text:
  assumes "recordText d X ts ex now s = Inr (r, s')"
  shows "recordText d (content s0) ts0 ex0 now0 s0 = Inr (maxRev s0, s0)
       \<and> recordText d X ts1 ex1 now1 s' = Inr (maxRev s', s')"
proof -
  have "content s' = X" using assms by (rule recordText_content)
  then show ?thesis by (simp add: recordText_def)
qed

theorem recordText_same_text_witness:
  "recordText simple_dmp (content fresh) None None 0 fresh = Inr (maxRev fresh, fresh)
   \<and> recordText simple_dmp ''a\<newline>'' (Some 43) None 8 s_one = Inr (maxRev s_one, s_one)"
  using recordText_same_text [OF s_one_reached] by simp

text \<open>
  Claim C9. At the sentinel's index or beyond (\<open>i \<ge> lines.length - 1\<close>) the timestamp is 0
  and the extra is the empty object; below it they are \<open>tsMap[lines[i].rev]\<close> and
  \<open>extraMap[lines[i].rev]\<close>, the latter replaced by the empty object when there is no entry.
\<close>

theorem annotations:
  "(length (lines s) \<le> Suc i \<longrightarrow> getLineTimestamp i s = Some 0 \<and> getLineExtra i s = [])
   \<and> (Suc i < length (lines s) \<longrightarrow>
        getLineTimestamp i s = tsMap s (lrev (lines s ! i))
      \<and> getLineExtra i s = (case extraMap s (lrev (lines s ! i)) of None \<Rightarrow> [] | Some e \<Rightarrow> e))"
  by (auto simp: getLineTimestamp_def getLineExtra_def)

theorem annotations_witness:
  "(length (lines s_one) \<le> Suc 1 \<and> getLineTimestamp 1 s_one = Some 0 \<and> getLineExtra 1 s_one = [])
   \<and> (Suc 0 < length (lines s_one) \<and> getLineTimestamp 0 s_one = Some 42
      \<and> getLineExtra 0 s_one = [(''author'', ''A'')])"
  using annotations [of s_one 1] annotations [of s_one 0]
  by (simp add: s_one_def)

text \<open>
  Claim C10. A \<open>checkOut\<close> that returns leaves \<open>code\<close>, \<open>tsMap\<close>, \<open>extraMap\<close> and \<open>maxRev\<close>
  as they were: the state after it is the state before with \<open>lastCheckoutRev\<close>, \<open>lines\<close>
  and \<open>content\<close> replaced. \<open>execute\<close> writes to its local variables only, so its model
  returns the lines and no state; what it computes is the same before and after.
\<close>

theorem checkOut_frame:
  assumes "checkOut r st s = Inr s'"
  shows "code s' = code s \<and> tsMap s' = tsMap s \<and> extraMap s' = extraMap s \<and> maxRev s' = maxRev s
     \<and> s' = s\<lparr>lastCheckoutRev := lastCheckoutRev s', lines := lines s', content := content s'\<rparr>
     \<and> execute s' startRev endRev present = execute s startRev endRev present"
  using assms
  by (auto simp: checkOut_def execute_def Let_def split: if_splits sum.splits option.splits)

theorem checkOut_frame_witness:
  "checkOut 0 None s_one =
     Inr (s_one\<lparr>lastCheckoutRev := 0,
            lines := [\<lparr>data = [], lrev = 0, pc = 3, deleted = False\<rparr>], content := []\<rparr>)
   \<and> execute (s_one\<lparr>lastCheckoutRev := 0,
            lines := [\<lparr>data = [], lrev = 0, pc = 3, deleted = False\<rparr>], content := []\<rparr>) 1 1 None
     = execute s_one 1 1 None"
proof -
  have co: "checkOut 0 None s_one =
     Inr (s_one\<lparr>lastCheckoutRev := 0,
            lines := [\<lparr>data = [], lrev = 0, pc = 3, deleted = False\<rparr>], content := []\<rparr>)"
    by (simp add: checkOut_def s_one_def execute_def deleted_fn_def reconstructContent_def
        eval_nat_numeral)
  from checkOut_frame [OF co, of 1 1 None] co show ?thesis by simp
qed

text \<open>
  Claim C4. The text differs from the content, the diff is one block that replaces the
  one line \<open>a1\<close> by the one line \<open>b1\<close> of the new text, that line of the snapshot of
  \<open>maxRev\<close> (\<open>s1\<close>, the state after the call's own \<open>checkOut(maxRev)\<close>) has revision
  \<open>maxRev\<close> and is the only one that has, and the instruction that emitted it is a \<open>LINE\<close>.
  Then the call returns \<open>maxRev\<close>; the program has the same length, with the data of that
  one \<open>LINE\<close> replaced; \<open>tsMap[maxRev]\<close> is the call's timestamp; \<open>maxRev\<close>,
  \<open>lastCheckoutRev\<close> and \<open>extraMap\<close> are those of \<open>s1\<close>.
\<close>

theorem trivial_update:
  assumes "content s \<noteq> text"
    and "checkOut (maxRev s) None s = Inr s1"
    and "diffLines d (content s) text = [(a1, a2, b1, b2)]"
    and "a2 = a1 + 1" and "b2 = b1 + 1"
    and "a1 < length (lines s1)" and "b1 < length (splitLines text)"
    and "lrev (lines s1 ! a1) = maxRev s"
    and "length (filter (\<lambda>l. lrev l = maxRev s) (lines s1)) = 1"
    and "pc (lines s1 ! a1) < length (code s)"
    and "code s ! pc (lines s1 ! a1) = LINE lr ld"
  shows "recordText d text timestamp ext now s =
     Inr (maxRev s,
          s1\<lparr>code := (code s)[pc (lines s1 ! a1) := LINE lr (splitLines text ! b1)],
             tsMap := (tsMap s)(maxRev s \<mapsto>
                        (case timestamp of None \<Rightarrow> now | Some t \<Rightarrow> if t = 0 then now else t)),
             lines := (lines s1)[a1 := (lines s1 ! a1)\<lparr>data := splitLines text ! b1\<rparr>],
             content := text\<rparr>)"
proof -
  from checkOut_fields [OF assms(2)]
  have fr: "code s1 = code s" "tsMap s1 = tsMap s" "maxRev s1 = maxRev s" by simp_all
  have tc: "trivial_cond [(a1, a2, b1, b2)] s1 = Inr True"
    using assms(4-9) fr by (simp add: trivial_cond_def)
  show ?thesis
    using assms(1,2,3,7,10,11) tc fr
    by (simp add: recordText_def Let_def)
qed

theorem trivial_update_witness:
  "recordText simple_dmp ''b\<newline>'' (Some 52) (Some [(''author'', ''B'')]) 7 s_one =
     Inr (1, s_one\<lparr>code := [J 1, JL 1 3, LINE 1 ''b\<newline>'', END], tsMap := [1 \<mapsto> 52],
        lines := [\<lparr>data = ''b\<newline>'', lrev = 1, pc = 2, deleted = False\<rparr>,
                 \<lparr>data = [], lrev = 0, pc = 3, deleted = False\<rparr>],
        content := ''b\<newline>''\<rparr>)"
proof -
  have co: "checkOut (maxRev s_one) None s_one = Inr s_one"
    by (simp add: checkOut_def s_one_def)
  have dl: "diffLines simple_dmp ''a\<newline>'' ''b\<newline>'' = [(0, 1, 0, 1)]" by code_simp
  have sl: "splitLines ''b\<newline>'' = [''b\<newline>'']" by code_simp
  have "recordText simple_dmp ''b\<newline>'' (Some 52) (Some [(''author'', ''B'')]) 7 s_one =
     Inr (maxRev s_one,
          s_one\<lparr>code := (code s_one)[pc (lines s_one ! 0) := LINE 1 (splitLines ''b\<newline>'' ! 0)],
             tsMap := (tsMap s_one)(maxRev s_one \<mapsto>
                        (case Some 52 of None \<Rightarrow> 7 | Some t \<Rightarrow> if t = 0 then 7 else t)),
             lines := (lines s_one)[0 := (lines s_one ! 0)\<lparr>data := splitLines ''b\<newline>'' ! 0\<rparr>],
             content := ''b\<newline>''\<rparr>)"
    by (rule trivial_update [where ?a2.0 = 1 and ?b2.0 = 1 and ld = "''a\<newline>''", OF _ co])
       (simp_all add: s_one_def dl sl)
  then show ?thesis by (simp add: s_one_def sl)
qed

text \<open>
  Claim C6 at the fast path. The second call replaces the only line of revision 1, so it
  takes the fast path and returns 1: \<open>tsMap[1]\<close> is the new timestamp 52, and
  \<open>extraMap[1]\<close> is still the first call's object, not the \<open>{author: "B"}\<close> supplied.
\<close>

theorem trivial_update_keeps_old_extra:
  "map_sum id (\<lambda>(r, s). (r, extraMap s r, tsMap s r))
     (recordText simple_dmp ''b\<newline>'' (Some 52) (Some [(''author'', ''B'')]) 7 s_one)
   = Inr (1, Some [(''author'', ''A'')], Some 52)"
  by code_simp

text \<open>
  Claim C1 after a \<open>checkOut\<close> of an older revision. \<open>recordText\<close> reads the old text from
  \<open>content\<close> before its own \<open>checkOut(maxRev)\<close>: with revision 0 checked out, the diff is
  taken from the empty text to \<open>"x\n"\<close> and applied to the lines of revision 1. The call
  returns revision 2 with \<open>content = "x\n"\<close> while its lines are \<open>x\<close>, \<open>a\<close>; checking
  out 1 and then 2 gives \<open>"x\na\n"\<close>, not the text recorded.
\<close>

theorem stale_content_diff:
  "map_sum id view
     (apply_ops simple_dmp
        [RecordText ''a\<newline>'' (Some 42) None 7, CheckOut 0 None,
         RecordText ''x\<newline>'' (Some 52) None 7] fresh)
   = Inr ([J 1, JL 1 3, J 4, END, JL 2 6, LINE 2 ''x\<newline>'', LINE 1 ''a\<newline>'', J 3], 2, 2,
          [\<lparr>data = ''x\<newline>'', lrev = 2, pc = 5, deleted = False\<rparr>,
           \<lparr>data = ''a\<newline>'', lrev = 1, pc = 6, deleted = False\<rparr>,
           \<lparr>data = [], lrev = 0, pc = 3, deleted = False\<rparr>], ''x\<newline>'')
   \<and> map_sum id content
     (apply_ops simple_dmp
        [RecordText ''a\<newline>'' (Some 42) None 7, CheckOut 0 None,
         RecordText ''x\<newline>'' (Some 52) None 7, CheckOut 1 None, CheckOut 2 None] fresh)
   = Inr ''x\<newline>a\<newline>''"
  by code_simp

text \<open>
  Claim C8 after a \<open>checkOut\<close> of an older revision. The third text is diffed against the
  three lines of revision 1 and the block \<open>(1, 2, 1, 2)\<close> is applied to the two entries
  of revision 2, where index 1 is the sentinel; \<open>editChunk\<close> accepts \<open>a2 = lines.length\<close>
  and splices the sentinel out. The call returns, and the last entry of \<open>lines\<close> is the
  line \<open>"x\n"\<close> of revision 3.
\<close>

theorem sentinel_spliced_out:
  "map_sum id lines
     (apply_ops simple_dmp
        [RecordText ''a\<newline>b\<newline>c\<newline>'' (Some 42) None 7,
         RecordText ''a\<newline>'' (Some 52) None 7, CheckOut 1 None,
         RecordText ''a\<newline>x\<newline>c\<newline>'' (Some 62) None 7] fresh)
   = Inr [\<lparr>data = ''a\<newline>'', lrev = 1, pc = 2, deleted = False\<rparr>,
          \<lparr>data = ''x\<newline>'', lrev = 3, pc = 10, deleted = False\<rparr>]"
  by code_simp

text \<open>
  Claim C3 after a range view of the newest revision. \<open>checkOut(2, 0)\<close> leaves the range
  view in \<open>lines\<close> and \<open>content\<close> with \<open>lastCheckoutRev = 2\<close>; the \<open>checkOut(maxRev)\<close> of
  the next \<open>recordText\<close> then returns at once, as \<open>rev === lastCheckoutRev\<close> and no \<open>start\<close>
  is given, and the blocks are applied to the lines of the range view, deleted ones
  included. The block \<open>(0, 2, 0, 0)\<close> of \<open>recordText("c\n")\<close> jumps over the line \<open>c\<close> too.
  After \<open>checkOut(3, 2)\<close> the lines are \<open>a\<close>, deleted, and the sentinel: the lines that are
  not deleted make the empty text, while the snapshot of revision 3 is \<open>"c\n"\<close>.
\<close>

theorem range_view_after_cached_range:
  "map_sum id (\<lambda>s. (map (\<lambda>l. (data l, deleted l)) (lines s),
                     concat (map data (filter (\<lambda>l. \<not> deleted l) (lines s)))))
     (apply_ops simple_dmp
        [RecordText ''a\<newline>b\<newline>c\<newline>'' (Some 42) None 7,
         RecordText ''a\<newline>'' (Some 52) None 7, CheckOut 2 (Some 0),
         RecordText ''c\<newline>'' (Some 62) None 7, CheckOut 3 (Some 2)] fresh)
   = Inr ([(''a\<newline>'', True), ([], False)], [])
   \<and> map_sum id content
     (apply_ops simple_dmp
        [RecordText ''a\<newline>b\<newline>c\<newline>'' (Some 42) None 7,
         RecordText ''a\<newline>'' (Some 52) None 7, CheckOut 2 (Some 0),
         RecordText ''c\<newline>'' (Some 62) None 7, CheckOut 0 None, CheckOut 3 None] fresh)
   = Inr ''c\<newline>''"
  by code_simp

text \<open>
  Claim C2 after a range view of the newest revision. After \<open>checkOut(2, 1)\<close> the original
  returns at once from \<open>checkOut(2)\<close> and keeps the range view: its content is \<open>"a\nb\n"\<close>
  and the timestamp of line 1 is 42, that of the deleted line \<open>b\<close>. The LineLog imported
  from its export gives the snapshot: \<open>"a\n"\<close>, and 0 at index 1, the sentinel's. The
  third conjunct is the LineLog of C8, whose program does not reach \<open>END\<close>: the
  \<open>checkOut(maxRev)\<close> of \<open>import\<close> fails with "code does not end in time".
\<close>

theorem import_differs_from_cached_view:
  "map_sum id (\<lambda>s. (content s, getLineTimestamp 1 s))
     (apply_ops simple_dmp
        [RecordText ''a\<newline>b\<newline>'' (Some 42) None 7, RecordText ''a\<newline>'' (Some 52) None 7,
         CheckOut 2 (Some 1), CheckOut 2 None] fresh)
   = Inr (''a\<newline>b\<newline>'', Some 42)
   \<and> (case apply_ops simple_dmp
        [RecordText ''a\<newline>b\<newline>'' (Some 42) None 7, RecordText ''a\<newline>'' (Some 52) None 7,
         CheckOut 2 (Some 1)] fresh of
        Inl e \<Rightarrow> Inl e
      | Inr s \<Rightarrow>
          (case import (export s) fresh of
             Inl e \<Rightarrow> Inl e
           | Inr w \<Rightarrow> map_sum id (\<lambda>s. (content s, getLineTimestamp 1 s)) (checkOut 2 None w)))
   = Inr (''a\<newline>'', Some 0)
   \<and> (case apply_ops simple_dmp
        [RecordText ''a\<newline>b\<newline>c\<newline>'' (Some 42) None 7,
         RecordText ''a\<newline>'' (Some 52) None 7, CheckOut 1 None,
         RecordText ''a\<newline>x\<newline>c\<newline>'' (Some 62) None 7] fresh of
        Inl e \<Rightarrow> Inl e
      | Inr s \<Rightarrow> map_sum id view (import (export s) fresh))
   = Inl CodeDoesNotEndInTime"
  by code_simp

text \<open>
  Claim C5. Take any sequence of \<open>recordText\<close> calls on a new LineLog, with a line diff
  that returns valid edit scripts. Every call returns, and on the LineLog reached every
  \<open>execute(startRev, endRev, present)\<close> returns its lines: the loop reaches \<open>END\<close> before
  its counter, which starts at \<open>2 * code.length\<close>, is 0, and the last line returned is the
  one pushed at \<open>END\<close>. So "code does not end in time" is not raised on these programs.
  The counter is what stops a program that does not reach \<open>END\<close>: with the program
  \<open>[J 0]\<close> in place, \<open>execute\<close> fails with that message.
\<close>

theorem execute_ends_in_time:
  assumes "dmp_ok d" and "list_all is_record ops"
  shows "\<exists>s. apply_ops d ops fresh = Inr s
     \<and> (\<forall>sr er present. \<exists>ls. execute s sr er present = Inr ls \<and> ls \<noteq> []
           \<and> code s ! pc (last ls) = END)
     \<and> execute (s\<lparr>code := [J 0]\<rparr>) sr0 er0 present0 = Inl CodeDoesNotEndInTime"
proof -
  from records_inv [OF inv_fresh assms] obtain s where s: "apply_ops d ops fresh = Inr s" "inv s"
    by blast
  from s(2) obtain rk where wf: "wf_code (code s) rk" by (auto simp: inv_def code_ok_def)
  have ne: "code s \<noteq> []" using s(2) by (rule inv_code_ne)
  have "\<exists>ls. execute s sr er present = Inr ls \<and> ls \<noteq> [] \<and> code s ! pc (last ls) = END"
    for sr er present
  proof -
    from execute_total [OF wf ne] obtain ps where ps: "runs (code s) sr er 0 ps"
      "execute s sr er present = Inr (map (line_at (code s) (deleted_fn present)) ps)" by blast
    have "ps \<noteq> []" using ps(1) by (rule runs_nonempty)
    moreover from this have "pc (last (map (line_at (code s) (deleted_fn present)) ps)) = last ps"
      by (simp add: last_map)
    ultimately show ?thesis using ps(2) runs_last_end [OF ps(1)] by simp
  qed
  moreover have "execute (s\<lparr>code := [J 0]\<rparr>) sr0 er0 present0 = Inl CodeDoesNotEndInTime"
    by (simp add: execute_def eval_nat_numeral)
  ultimately show ?thesis using s(1) by blast
qed

theorem execute_ends_in_time_witness:
  "dmp_ok simple_dmp
   \<and> list_all is_record [RecordText ''a\<newline>'' (Some 42) None 7, RecordText ''a\<newline>b\<newline>'' None None 9]
   \<and> (\<exists>s. apply_ops simple_dmp
            [RecordText ''a\<newline>'' (Some 42) None 7, RecordText ''a\<newline>b\<newline>'' None None 9] fresh = Inr s
        \<and> (\<forall>sr er present. \<exists>ls. execute s sr er present = Inr ls \<and> ls \<noteq> []
              \<and> code s ! pc (last ls) = END)
        \<and> execute (s\<lparr>code := [J 0]\<rparr>) 0 1 None = Inl CodeDoesNotEndInTime)"
  using execute_ends_in_time [OF simple_dmp_ok,
      of "[RecordText ''a\<newline>'' (Some 42) None 7, RecordText ''a\<newline>b\<newline>'' None None 9]" 0 1 None]
    simple_dmp_ok
  by simp

lemma range_witness_values:
  "map_sum id (\<lambda>s. (maxRev s,
        map_sum id (\<lambda>s'. map (\<lambda>l. (data l, deleted l)) (lines s')) (checkOut 2 (Some 1) s)))
     (apply_ops simple_dmp
        ([RecordText ''a\<newline>b\<newline>'' (Some 42) None 7, RecordText ''a\<newline>'' (Some 52) None 7] @ []) fresh)
   = Inr (2, Inr [(''a\<newline>'', False), (''b\<newline>'', True), ([], False)])"
  by code_simp

text \<open>
  Range views where no \<open>recordText\<close> follows a \<open>checkOut\<close>: take a LineLog reached by
  \<open>recordText\<close> calls on a new one followed by any \<open>checkOut\<close> calls, with a line diff that
  returns valid edit scripts, and \<open>0 \<le> start \<le> r \<le> maxRev\<close>. Then \<open>checkOut(r, start)\<close>
  returns, and the data of the entries of \<open>lines\<close> whose \<open>deleted\<close> is false, concatenated,
  are the content of the snapshot of \<open>r\<close>. The snapshot is the one \<open>checkOut(r)\<close> computes:
  with \<open>lastCheckoutRev\<close> reset to the constructor's -1, and on the LineLog as it is when
  its \<open>lastCheckoutRev\<close> differs from \<open>r\<close>.
\<close>

theorem union_view_snapshot:
  assumes "dmp_ok d" and "list_all is_record recs" and "list_all is_checkout cos"
    and "apply_ops d (recs @ cos) fresh = Inr s"
    and "0 \<le> start" and "start \<le> r" and "r \<le> maxRev s"
  shows "\<exists>s' s''. checkOut r (Some start) s = Inr s'
     \<and> checkOut r None (s\<lparr>lastCheckoutRev := - 1\<rparr>) = Inr s''
     \<and> concat (map data (filter (\<lambda>l. \<not> deleted l) (lines s'))) = content s''
     \<and> (lastCheckoutRev s \<noteq> r \<longrightarrow> map_sum id content (checkOut r None s) = Inr (content s''))"
proof -
  from built_code_ok [OF assms(1-4)] obtain s0 where s0: "inv s0" "code s = code s0" by blast
  from s0 obtain rk where wf: "wf_code (code s) rk" and un: "union_ok (code s)"
    by (auto simp: inv_def code_ok_def)
  have ne: "0 < length (code s)" using inv_code_ne [OF s0(1)] s0(2) by simp
  have m: "r = min r (maxRev s)" using assms(7) by simp
  from runs_total [OF wf ne] obtain ps where ps: "runs (code s) r r 0 ps" by blast
  from runs_total [OF wf ne] obtain qs where qs: "runs (code s) start r 0 qs" by blast
  let ?u = "map (line_at (code s) (\<lambda>p. p \<notin> set ps)) qs"
  let ?c = "concat (map data (lines_of (code s) ps))"
  have a: "checkOut r (Some start) s
      = Inr (s\<lparr>lastCheckoutRev := r, lines := ?u, content := concat (map data ?u)\<rparr>)"
    using wf ps qs m by (rule checkOut_union)
  have b: "checkOut r None (s\<lparr>lastCheckoutRev := - 1\<rparr>)
      = Inr (s\<lparr>lastCheckoutRev := - 1\<rparr>\<lparr>lastCheckoutRev := r,
          lines := lines_of (code (s\<lparr>lastCheckoutRev := - 1\<rparr>)) ps,
          content := concat (map data (lines_of (code (s\<lparr>lastCheckoutRev := - 1\<rparr>)) ps))\<rparr>)"
    by (rule checkOut_snapshot [where rk = rk]) (use wf ps m assms(5,6) in simp_all)
  have c: "concat (map data (filter (\<lambda>l. \<not> deleted l) ?u)) = ?c"
    using union_filter [OF wf un assms(6) ps qs] by simp
  have d: "map_sum id content (checkOut r None s) = Inr ?c" if "lastCheckoutRev s \<noteq> r"
    using checkOut_snapshot [OF wf ps m that] by simp
  show ?thesis using a b c d by simp
qed

theorem union_view_snapshot_witness:
  "\<exists>s s' s''. apply_ops simple_dmp
        ([RecordText ''a\<newline>b\<newline>'' (Some 42) None 7, RecordText ''a\<newline>'' (Some 52) None 7] @ []) fresh
       = Inr s
     \<and> checkOut 2 (Some 1) s = Inr s'
     \<and> map (\<lambda>l. (data l, deleted l)) (lines s') = [(''a\<newline>'', False), (''b\<newline>'', True), ([], False)]
     \<and> checkOut 2 None (s\<lparr>lastCheckoutRev := - 1\<rparr>) = Inr s''
     \<and> concat (map data (filter (\<lambda>l. \<not> deleted l) (lines s'))) = content s''"
proof -
  let ?recs = "[RecordText ''a\<newline>b\<newline>'' (Some 42) None 7, RecordText ''a\<newline>'' (Some 52) None 7]"
  have "list_all is_record ?recs" by simp
  from records_inv [OF inv_fresh simple_dmp_ok this]
  obtain s where s: "apply_ops simple_dmp (?recs @ []) fresh = Inr s" by auto
  from range_witness_values s have m: "maxRev s = 2"
    and l: "map_sum id (\<lambda>s'. map (\<lambda>l. (data l, deleted l)) (lines s')) (checkOut 2 (Some 1) s)
       = Inr [(''a\<newline>'', False), (''b\<newline>'', True), ([], False)]"
    by simp_all
  have "\<exists>s' s''. checkOut 2 (Some 1) s = Inr s'
     \<and> checkOut 2 None (s\<lparr>lastCheckoutRev := - 1\<rparr>) = Inr s''
     \<and> concat (map data (filter (\<lambda>l. \<not> deleted l) (lines s'))) = content s''
     \<and> (lastCheckoutRev s \<noteq> 2 \<longrightarrow> map_sum id content (checkOut 2 None s) = Inr (content s''))"
    by (rule union_view_snapshot [OF simple_dmp_ok _ _ s]) (simp_all add: m)
  then obtain s' s'' where c: "checkOut 2 (Some 1) s = Inr s'"
    "checkOut 2 None (s\<lparr>lastCheckoutRev := - 1\<rparr>) = Inr s''"
    "concat (map data (filter (\<lambda>l. \<not> deleted l) (lines s'))) = content s''" by blast
  from l c(1) have lm: "map (\<lambda>l. (data l, deleted l)) (lines s')
      = [(''a\<newline>'', False), (''b\<newline>'', True), ([], False)]" by simp
  show ?thesis
  proof (intro exI conjI)
    show "apply_ops simple_dmp (?recs @ []) fresh = Inr s" by (rule s)
    show "checkOut 2 (Some 1) s = Inr s'" by (rule c(1))
    show "map (\<lambda>l. (data l, deleted l)) (lines s')
      = [(''a\<newline>'', False), (''b\<newline>'', True), ([], False)]" by (rule lm)
    show "checkOut 2 None (s\<lparr>lastCheckoutRev := - 1\<rparr>) = Inr s''" by (rule c(2))
    show "concat (map data (filter (\<lambda>l. \<not> deleted l) (lines s'))) = content s''" by (rule c(3))
  qed
qed

text \<open>
  Export and import where no \<open>recordText\<close> follows a \<open>checkOut\<close>: take a LineLog \<open>s\<close>
  reached by \<open>recordText\<close> calls on a new one followed by any \<open>checkOut\<close> calls, with a line
  diff that returns valid edit scripts. \<open>import\<close> of \<open>export s\<close> into a new LineLog returns;
  the LineLog \<open>w\<close> it gives is the one the \<open>recordText\<close> calls had reached, with the
  program, \<open>tsMap\<close>, \<open>extraMap\<close> and \<open>maxRev\<close> of \<open>s\<close> and with \<open>maxRev\<close> checked out.
  \<open>maxRev\<close> is the greatest revision of the \<open>JGE\<close> and \<open>JL\<close> instructions, or 0. Every
  \<open>checkOut(r, start)\<close> that computes its lines on \<open>s\<close> (one that does not return at once
  on \<open>lastCheckoutRev\<close>) gives on \<open>w\<close> the same lines and the same content, hence the same
  \<open>getLineTimestamp\<close> and \<open>getLineExtra\<close> at every index. The last two conjuncts are
  \<open>import\<close> on any buffer and any LineLog: the fields of the buffer are adopted, \<open>maxRev\<close>
  is the maximum of 0 and the revisions of the \<open>JGE\<close> and \<open>JL\<close> instructions, and that
  revision is checked out.
\<close>

theorem export_import:
  assumes "dmp_ok d" and "list_all is_record recs" and "list_all is_checkout cos"
    and "apply_ops d (recs @ cos) fresh = Inr s"
  shows "\<exists>w. import (export s) fresh = Inr w \<and> apply_ops d recs fresh = Inr w
     \<and> code w = code s \<and> tsMap w = tsMap s \<and> extraMap w = extraMap s
     \<and> maxRev w = maxRev s \<and> lastCheckoutRev w = maxRev w
     \<and> maxRev w = Max (insert 0 {r. \<exists>t. JGE r t \<in> set (code s) \<or> JL r t \<in> set (code s)})
     \<and> (\<forall>r st. lastCheckoutRev s \<noteq> min r (maxRev s) \<or> st \<noteq> None \<longrightarrow>
          (\<exists>s' w'. checkOut r st s = Inr s' \<and> checkOut r st w = Inr w'
             \<and> lines w' = lines s' \<and> content w' = content s'
             \<and> (\<forall>i. getLineTimestamp i w' = getLineTimestamp i s'
                    \<and> getLineExtra i w' = getLineExtra i s')))
     \<and> import buf t = checkOut (import_maxRev (p_code buf)) None
          (t\<lparr>code := p_code buf,
             tsMap := (case p_tsMap buf of None \<Rightarrow> Map.empty | Some m \<Rightarrow> m),
             extraMap := (case p_extraMap buf of None \<Rightarrow> Map.empty | Some m \<Rightarrow> m),
             maxRev := import_maxRev (p_code buf)\<rparr>)
     \<and> import_maxRev (p_code buf)
        = Max (insert 0 {r. \<exists>t. JGE r t \<in> set (p_code buf) \<or> JL r t \<in> set (p_code buf)})"
proof -
  from built_code_ok [OF assms] obtain w where w: "apply_ops d recs fresh = Inr w" "inv w"
    "code s = code w" "tsMap s = tsMap w" "extraMap s = extraMap w" "maxRev s = maxRev w" by blast
  have imp: "import (export s) fresh = Inr w" using w(2-5) by (rule import_export)
  have lc: "lastCheckoutRev w = maxRev w" using w(2) by (simp add: inv_def)
  have "code_ok (code w) (maxRev w)" using w(2) by (simp add: inv_def)
  from import_maxRev_code_ok [OF this]
  have mx: "maxRev w = Max (insert 0 {r. \<exists>t. JGE r t \<in> set (code s) \<or> JL r t \<in> set (code s)})"
    by (simp add: import_maxRev_Max w(3))
  have ag: "\<exists>s' w'. checkOut r st s = Inr s' \<and> checkOut r st w = Inr w'
             \<and> lines w' = lines s' \<and> content w' = content s'
             \<and> (\<forall>i. getLineTimestamp i w' = getLineTimestamp i s'
                    \<and> getLineExtra i w' = getLineExtra i s')"
    if "lastCheckoutRev s \<noteq> min r (maxRev s) \<or> st \<noteq> None" for r st
  proof -
    from checkOut_agree [OF w(2,3,6) that] obtain s' w' where c: "checkOut r st s = Inr s'"
      "checkOut r st w = Inr w'" "lines w' = lines s'" "content w' = content s'" by blast
    have "tsMap w' = tsMap s'" "extraMap w' = extraMap s'"
      using checkOut_fields [OF c(1)] checkOut_fields [OF c(2)] w(4,5) by simp_all
    with c(3) have "getLineTimestamp i w' = getLineTimestamp i s'
        \<and> getLineExtra i w' = getLineExtra i s'" for i
      by (simp add: getLineTimestamp_def getLineExtra_def)
    with c show ?thesis by blast
  qed
  have gen: "import buf t = checkOut (import_maxRev (p_code buf)) None
          (t\<lparr>code := p_code buf,
             tsMap := (case p_tsMap buf of None \<Rightarrow> Map.empty | Some m \<Rightarrow> m),
             extraMap := (case p_extraMap buf of None \<Rightarrow> Map.empty | Some m \<Rightarrow> m),
             maxRev := import_maxRev (p_code buf)\<rparr>)"
    by (simp add: import_def Let_def)
  show ?thesis
    apply (rule exI [of _ w])
    apply (intro conjI)
    subgoal by (rule imp)
    subgoal by (rule w(1))
    subgoal by (simp add: w(3))
    subgoal by (simp add: w(4))
    subgoal by (simp add: w(5))
    subgoal by (simp add: w(6))
    subgoal by (rule lc)
    subgoal by (rule mx)
    subgoal using ag by blast
    subgoal by (rule gen)
    subgoal by (rule import_maxRev_Max)
    done
qed

theorem export_import_witness:
  "import (export s_zero) fresh = Inr s_one
   \<and> maxRev s_one = Max (insert 0 {r. \<exists>t. JGE r t \<in> set (code s_zero) \<or> JL r t \<in> set (code s_zero)})
   \<and> (\<exists>s' w'. checkOut 1 None s_zero = Inr s' \<and> checkOut 1 None s_one = Inr w'
        \<and> lines w' = lines s' \<and> content w' = content s'
        \<and> (\<forall>i. getLineTimestamp i w' = getLineTimestamp i s'
               \<and> getLineExtra i w' = getLineExtra i s'))"
proof -
  have "list_all is_record [RecordText ''a\<newline>'' (Some 42) (Some [(''author'', ''A'')]) 7]"
    "list_all is_checkout [CheckOut 0 None]" by simp_all
  from export_import [OF simple_dmp_ok this s_zero_reached, of "export s_zero" fresh]
  obtain w where w: "import (export s_zero) fresh = Inr w"
    "apply_ops simple_dmp [RecordText ''a\<newline>'' (Some 42) (Some [(''author'', ''A'')]) 7] fresh = Inr w"
    "maxRev w = Max (insert 0 {r. \<exists>t. JGE r t \<in> set (code s_zero) \<or> JL r t \<in> set (code s_zero)})"
    "\<forall>r st. lastCheckoutRev s_zero \<noteq> min r (maxRev s_zero) \<or> st \<noteq> None \<longrightarrow>
          (\<exists>s' w'. checkOut r st s_zero = Inr s' \<and> checkOut r st w = Inr w'
             \<and> lines w' = lines s' \<and> content w' = content s'
             \<and> (\<forall>i. getLineTimestamp i w' = getLineTimestamp i s'
                    \<and> getLineExtra i w' = getLineExtra i s'))"
    by blast
  from w(2) have eq: "w = s_one" by (simp add: s_one_reached)
  have "lastCheckoutRev s_zero \<noteq> min 1 (maxRev s_zero)" by (simp add: s_zero_def s_one_def)
  with w(4) have "\<exists>s' w'. checkOut 1 None s_zero = Inr s' \<and> checkOut 1 None w = Inr w'
             \<and> lines w' = lines s' \<and> content w' = content s'
             \<and> (\<forall>i. getLineTimestamp i w' = getLineTimestamp i s'
                    \<and> getLineExtra i w' = getLineExtra i s')" by blast
  with w(1,3) eq show ?thesis by simp
qed

text \<open>
  The texts of the revisions, where \<open>recordText\<close> is called with the newest revision
  checked out: on a LineLog reached by \<open>recordText\<close> calls on a new one followed by any \<open>checkOut\<close> calls,
  with a line diff that returns valid edit scripts. For \<open>0 \<le> r \<le> maxRev\<close>, \<open>checkOut(r)\<close>
  gives as content the text of the last \<open>recordText\<close> that returned \<open>r\<close>, every revision
  from 1 to \<open>maxRev\<close> has such a text, and revision 0 gives the empty text. The
  snapshot is the one \<open>checkOut\<close> computes: with \<open>lastCheckoutRev\<close> reset, and on the
  LineLog as it is when its \<open>lastCheckoutRev\<close> is not \<open>r\<close>.
\<close>

theorem recorded_revisions:
  assumes "dmp_ok d" and "list_all is_record recs" and "list_all is_checkout cos"
    and "apply_ops d (recs @ cos) fresh = Inr s"
    and "0 \<le> r" and "r \<le> maxRev s"
  shows "\<exists>s'. checkOut r None (s\<lparr>lastCheckoutRev := - 1\<rparr>) = Inr s'
     \<and> content s' = (case record_log d recs fresh Map.empty r of None \<Rightarrow> [] | Some X \<Rightarrow> X)
     \<and> (1 \<le> r \<longrightarrow> record_log d recs fresh Map.empty r \<noteq> None)
     \<and> (r = 0 \<longrightarrow> content s' = [])
     \<and> (lastCheckoutRev s \<noteq> r \<longrightarrow> map_sum id content (checkOut r None s) = Inr (content s'))"
proof -
  let ?h = "record_log d recs fresh Map.empty"
  from records_hinv [OF hinv_fresh assms(1,2)] obtain s0
    where s0: "apply_ops d recs fresh = Inr s0" "hinv s0 ?h" by blast
  from s0(2) have inv: "inv s0" and ho: "hist_ok (code s0) (maxRev s0) ?h" by (simp_all add: hinv_def)
  from inv obtain rk where wf0: "wf_code (code s0) rk" by (auto simp: inv_def code_ok_def)
  from checkouts_total [OF wf0 inv_code_ne [OF inv] assms(3)] obtain s1
    where "apply_ops d cos s0 = Inr s1" "code s1 = code s0" "maxRev s1 = maxRev s0" by blast
  with s0(1) assms(4) have cs: "code s = code s0" "maxRev s = maxRev s0"
    by (simp_all add: apply_ops_append)
  have wf: "wf_code (code s) rk" using wf0 cs by simp
  have ne: "0 < length (code s)" using inv_code_ne [OF inv] cs by simp
  have m: "r = min r (maxRev s)" using assms(6) by simp
  from runs_total [OF wf ne] obtain ps where ps: "runs (code s) r r 0 ps" by blast
  let ?X = "concat (map data (lines_of (code s) ps))"
  have b: "checkOut r None (s\<lparr>lastCheckoutRev := - 1\<rparr>)
      = Inr (s\<lparr>lastCheckoutRev := - 1\<rparr>\<lparr>lastCheckoutRev := r,
          lines := lines_of (code (s\<lparr>lastCheckoutRev := - 1\<rparr>)) ps,
          content := concat (map data (lines_of (code (s\<lparr>lastCheckoutRev := - 1\<rparr>)) ps))\<rparr>)"
    by (rule checkOut_snapshot [where rk = rk]) (use wf ps m assms(5) in simp_all)
  have "?X = concat (map (\<lambda>p. fst (line_of (code s0 ! p))) ps)"
    by (simp add: lines_of_def data_line_of cs comp_def)
  also have "\<dots> = (case ?h r of None \<Rightarrow> [] | Some X \<Rightarrow> X)"
    using ho assms(5,6) ps cs by (simp add: hist_ok_def)
  finally have c: "?X = (case ?h r of None \<Rightarrow> [] | Some X \<Rightarrow> X)" .
  have e: "1 \<le> r \<longrightarrow> ?h r \<noteq> None" using ho assms(6) cs by (simp add: hist_ok_def)
  have "?h 0 = None \<or> ?h 0 = Some []" using ho by (simp add: hist_ok_def)
  with c have z: "r = 0 \<longrightarrow> ?X = []" by auto
  have f: "map_sum id content (checkOut r None s) = Inr ?X" if "lastCheckoutRev s \<noteq> r"
    using checkOut_snapshot [OF wf ps m that] by simp
  show ?thesis using b c e z f by simp
qed

theorem recorded_revisions_witness:
  "\<exists>s'. checkOut 1 None (s_zero\<lparr>lastCheckoutRev := - 1\<rparr>) = Inr s'
     \<and> content s' = ''a\<newline>''
     \<and> map_sum id content (checkOut 1 None s_zero) = Inr (content s')"
  using recorded_revisions [OF simple_dmp_ok _ _ s_zero_reached, of 1]
  by (simp add: s_zero_def s_one_def s_one_reached [unfolded s_one_def])

text \<open>
  The sentinel on the same sequences: every \<open>recordText\<close> call on a new LineLog, and every
  \<open>checkOut\<close> after them, returns, and in the LineLog reached the last entry of \<open>lines\<close>
  is the \<open>END\<close> sentinel with data \<open>""\<close> and revision 0, every other entry being the line
  of a \<open>LINE\<close> instruction.
\<close>

theorem sentinel_kept:
  assumes "dmp_ok d" and "list_all is_record recs" and "list_all is_checkout cos"
  shows "\<exists>s. apply_ops d (recs @ cos) fresh = Inr s \<and> sentinel_last s"
proof -
  from records_inv [OF inv_fresh assms(1,2)] obtain s0
    where s0: "apply_ops d recs fresh = Inr s0" "inv s0" by blast
  from s0(2) obtain rk where wf: "wf_code (code s0) rk" by (auto simp: inv_def code_ok_def)
  from sentinel_checkouts [OF wf inv_code_ne [OF s0(2)] sentinel_inv [OF s0(2)] assms(3)]
  obtain s where "apply_ops d cos s0 = Inr s" "sentinel_last s" by blast
  with s0(1) show ?thesis by (auto simp: apply_ops_append)
qed

theorem sentinel_kept_witness:
  "apply_ops simple_dmp
     ([RecordText ''a\<newline>'' (Some 42) (Some [(''author'', ''A'')]) 7] @ [CheckOut 0 None]) fresh
   = Inr s_zero \<and> sentinel_last s_zero"
  using sentinel_kept [OF simple_dmp_ok,
      of "[RecordText ''a\<newline>'' (Some 42) (Some [(''author'', ''A'')]) 7]" "[CheckOut 0 None]"]
    s_zero_reached
  by simp

end
